theory Spec2Isabelle
  imports Main "HOL-Library.Char_ord" "HOL-Library.List_Lexorder" "HOL-Library.Sublist"
begin

section \<open>Mousetrap: a shallow embedding of \<^verbatim>\<open>src/mousetrap.jsx\<close>\<close>

text \<open>
  Conventions of the embedding.
  \<^item> JavaScript strings are \<open>string\<close> (lists of 8-bit characters); the model covers
    ASCII text and key codes below 128 in \<open>String.fromCharCode\<close>.
  \<^item> An action is one of the three event kinds; an optional action argument
    (\<open>undefined\<close> in the source) is \<open>action option\<close>.
  \<^item> The object literals used as lookup tables are association lists of their own
    properties. A lookup in the source also finds the members inherited from
    \<open>Object.prototype\<close> (\<open>constructor\<close>, \<open>toString\<close>, \<open>valueOf\<close>, \<open>__proto__\<close> and
    the like); keys with these names are outside the model, and the statements below
    that depend on a lookup are about keys that are not among them.
  \<^item> A raised \<open>TypeError\<close> is a value: operations that can raise return the state
    reached so far together with \<open>exn option\<close>, since the mutations made before
    the raise stay in the engine.
\<close>

subsection \<open>Key descriptor tables\<close>

datatype action = Keypress | Keydown | Keyup

fun action_name :: "action \<Rightarrow> string" where
  "action_name Keypress = ''keypress''"
| "action_name Keydown = ''keydown''"
| "action_name Keyup = ''keyup''"

text \<open>\<open>_MAP\<close> as the class body declares it, before \<open>staticConstructor\<close> runs.\<close>

definition MAP_literal :: "(nat \<times> string) list" where
  "MAP_literal =
    [(8, ''backspace''), (9, ''tab''), (13, ''enter''), (16, ''shift''), (17, ''ctrl''),
     (18, ''alt''), (20, ''capslock''), (27, ''esc''), (32, ''space''), (33, ''pageup''),
     (34, ''pagedown''), (35, ''end''), (36, ''home''), (37, ''left''), (38, ''up''),
     (39, ''right''), (40, ''down''), (45, ''ins''), (46, ''del''), (91, ''meta''),
     (93, ''meta''), (224, ''meta'')]"

definition KEYCODE_MAP :: "(nat \<times> string) list" where
  "KEYCODE_MAP =
    [(106, ''*''), (107, ''+''), (109, ''-''), (110, ''.''), (111, ''/''), (186, '';''),
     (187, ''=''), (188, '',''), (189, ''-''), (190, ''.''), (191, ''/''), (192, ''`''),
     (219, ''[''), (220, [CHR 0x5C]), (221, '']''), (222, [CHR 0x27])]"

definition SHIFT_MAP :: "(string \<times> string) list" where
  "SHIFT_MAP =
    [(''~'', ''`''), (''!'', ''1''), (''@'', ''2''), (''#'', ''3''), (''$'', ''4''),
     (''%'', ''5''), (''^'', ''6''), (''&'', ''7''), (''*'', ''8''), (''('', ''9''),
     ('')'', ''0''), (''_'', ''-''), (''+'', ''=''), ('':'', '';''),
     ([CHR 0x22], [CHR 0x27]), (''<'', '',''), (''>'', ''.''), (''?'', ''/''),
     (''|'', [CHR 0x5C])]"

text \<open>
  \<open>_SPECIAL_ALIASES\<close>. The entry for \<open>mod\<close> depends on \<open>navigator.platform\<close>; the
  flag \<open>mac\<close> is the result of the test \<open>/Mac|iPod|iPhone|iPad/\<close> on it.
\<close>

definition SPECIAL_ALIASES :: "bool \<Rightarrow> (string \<times> string) list" where
  "SPECIAL_ALIASES mac =
    [(''option'', ''alt''), (''command'', ''meta''), (''return'', ''enter''),
     (''escape'', ''esc''), (''plus'', ''+''),
     (''mod'', if mac then ''meta'' else ''ctrl'')]"

text \<open>
  The static fields that change at run time: \<open>_MAP\<close> (extended by
  \<open>staticConstructor\<close> and \<open>addKeycodes\<close>) and the cache \<open>_REVERSE_MAP\<close>, which is
  \<open>None\<close> when the source holds \<open>null\<close>.
\<close>

record tables =
  MAP :: "(nat \<times> string) list"
  REVERSE_MAP :: "(string \<times> nat) list option"
  mac :: bool

text \<open>Assignment \<open>obj[k] = v\<close> on a table: replace the entry or append a new one.\<close>

fun assign :: "'k \<Rightarrow> 'v \<Rightarrow> ('k \<times> 'v) list \<Rightarrow> ('k \<times> 'v) list" where
  "assign k v [] = [(k, v)]"
| "assign k v ((k', v') # kvs) =
     (if k = k' then (k, v) # kvs else (k', v') # assign k v kvs)"

text \<open>\<open>i.toString()\<close> for the small numbers the source converts (below 100).\<close>

definition digit :: "nat \<Rightarrow> char" where
  "digit d = char_of (48 + d)"

definition toString :: "nat \<Rightarrow> string" where
  "toString i = (if i < 10 then [digit i] else [digit (i div 10), digit (i mod 10)])"

text \<open>
  \<open>staticConstructor\<close>: the first loop adds \<open>f1\<close> to \<open>f19\<close> at codes 112 to 130, the
  second the keypad digits, as strings, at codes 96 to 105.
\<close>

definition staticConstructor :: "tables \<Rightarrow> tables" where
  "staticConstructor tb =
     (let m1 = fold (\<lambda>i m. assign (111 + i) (''f'' @ toString i) m) [1 ..< 20] (MAP tb);
          m2 = fold (\<lambda>i m. assign (i + 96) (toString i) m) [0 ..< 10] m1
      in tb\<lparr>MAP := m2\<rparr>)"

text \<open>
  The tables once the module is loaded. The class body initialises \<open>_REVERSE_MAP\<close> to
  the empty object \<open>{}\<close>, not to \<open>null\<close>.
\<close>

definition initial_tables :: "bool \<Rightarrow> tables" where
  "initial_tables is_mac =
     staticConstructor \<lparr>MAP = MAP_literal, REVERSE_MAP = Some [], mac = is_mac\<rparr>"

text \<open>\<open>addKeycodes\<close>: merge the given entries into \<open>_MAP\<close> and drop the cache.\<close>

definition addKeycodes :: "(nat \<times> string) list \<Rightarrow> tables \<Rightarrow> tables" where
  "addKeycodes object tb =
     tb\<lparr>MAP := fold (\<lambda>(k, v) m. assign k v m) object (MAP tb), REVERSE_MAP := None\<rparr>"

text \<open>
  \<open>#getReverseMap\<close>: when the cache is \<open>null\<close> it is rebuilt from \<open>_MAP\<close>, leaving
  out the codes 96 to 111; otherwise the cached object is returned. The loop
  \<open>for (key in _MAP)\<close> visits the codes in ascending order. The rebuilt value
  is a function of \<open>_MAP\<close> alone and \<open>addKeycodes\<close> drops the cache whenever \<open>_MAP\<close>
  changes, so the write to the cache is not threaded through the model.
\<close>

definition getReverseMap :: "tables \<Rightarrow> (string \<times> nat) list" where
  "getReverseMap tb =
     (case REVERSE_MAP tb of
        Some r \<Rightarrow> r
      | None \<Rightarrow>
          fold (\<lambda>(k, v) r. if 95 < k \<and> k < 112 then r else assign v k r)
            (sort_key fst (MAP tb)) [])"

subsection \<open>Combination parser\<close>

definition isModifier :: "string \<Rightarrow> bool" where
  "isModifier k \<longleftrightarrow> k = ''shift'' \<or> k = ''ctrl'' \<or> k = ''alt'' \<or> k = ''meta''"

definition modifierNames :: "string set" where
  "modifierNames = {''shift'', ''ctrl'', ''alt'', ''meta''}"

text \<open>
  \<open>#pickBestAction\<close>. A key of the reverse map holds a key code written as a
  non-empty string, which is truthy, so the test is membership.
\<close>

definition pickBestAction :: "tables \<Rightarrow> string \<Rightarrow> string list \<Rightarrow> action option \<Rightarrow> action" where
  "pickBestAction tb k mods act =
     (let a = (case act of
                 Some a \<Rightarrow> a
               | None \<Rightarrow> (if map_of (getReverseMap tb) k \<noteq> None then Keydown else Keypress))
      in if a = Keypress \<and> mods \<noteq> [] then Keydown else a)"

text \<open>\<open>combination.replace(/\+{2}/g, '+plus')\<close>: leftmost, non-overlapping pairs.\<close>

fun replace_plus_plus :: "string \<Rightarrow> string" where
  "replace_plus_plus (a # b # cs) =
     (if a = CHR ''+'' \<and> b = CHR ''+'' then ''+plus'' @ replace_plus_plus cs
      else a # replace_plus_plus (b # cs))"
| "replace_plus_plus cs = cs"

text \<open>\<open>s.split(d)\<close> for a one-character separator; the empty string gives \<open>['''']\<close>.\<close>

fun split :: "char \<Rightarrow> string \<Rightarrow> string list" where
  "split d [] = [[]]"
| "split d (c # cs) =
     (if c = d then [] # split d cs
      else (case split d cs of t # ts \<Rightarrow> (c # t) # ts | [] \<Rightarrow> [[c]]))"

definition keysFromString :: "string \<Rightarrow> string list" where
  "keysFromString combination =
     (if combination = ''+'' then [''+'']
      else split (CHR ''+'') (replace_plus_plus combination))"

record keyinfo =
  key :: string
  info_modifiers :: "string list"
  info_action :: action

text \<open>
  One round of the loop of \<open>#getKeyInfo\<close>, in three parts. An alias value and a
  shift-table value are never empty, so their truthiness tests are lookups.
  \<open>resolveAlias\<close> is the lookup in \<open>_SPECIAL_ALIASES\<close> among its own properties (for a
  token named like a member of \<open>Object.prototype\<close> the source finds that member, and
  \<open>key\<close> becomes a function: no such token is one character long or an alias);
  \<open>usesShift\<close> is the test
  \<open>action && action != 'keypress' && _SHIFT_MAP[key]\<close>; \<open>resolveKey\<close> is the value
  of \<open>key\<close> at the end of the round; \<open>keyStep\<close> updates the current \<open>key\<close> and the
  \<open>modifiers\<close> array.
\<close>

definition resolveAlias :: "tables \<Rightarrow> string \<Rightarrow> string" where
  "resolveAlias tb tok =
     (case map_of (SPECIAL_ALIASES (mac tb)) tok of Some a \<Rightarrow> a | None \<Rightarrow> tok)"

definition usesShift :: "action option \<Rightarrow> string \<Rightarrow> bool" where
  "usesShift act k \<longleftrightarrow> act \<noteq> None \<and> act \<noteq> Some Keypress \<and> map_of SHIFT_MAP k \<noteq> None"

definition resolveKey :: "tables \<Rightarrow> action option \<Rightarrow> string \<Rightarrow> string" where
  "resolveKey tb act tok =
     (let k1 = resolveAlias tb tok
      in if usesShift act k1 then the (map_of SHIFT_MAP k1) else k1)"

definition keyStep :: "tables \<Rightarrow> action option \<Rightarrow> string \<Rightarrow> string \<times> string list \<Rightarrow> string \<times> string list" where
  "keyStep tb act tok = (\<lambda>(_, mods).
     (let k1 = resolveAlias tb tok;
          k2 = resolveKey tb act tok;
          mods1 = (if usesShift act k1 then mods @ [''shift''] else mods);
          mods2 = (if isModifier k2 then mods1 @ [k2] else mods1)
      in (k2, mods2)))"

text \<open>
  \<open>#getKeyInfo\<close>. \<open>keysFromString\<close> never returns an empty array, so \<open>key\<close> is
  assigned at least once; the start value of the fold is not observable.
\<close>

definition getKeyInfo :: "tables \<Rightarrow> string \<Rightarrow> action option \<Rightarrow> keyinfo" where
  "getKeyInfo tb combination act =
     (let (k, mods) = fold (keyStep tb act) (keysFromString combination) ([], [])
      in \<lparr>key = k, info_modifiers = mods, info_action = pickBestAction tb k mods act\<rparr>)"

text \<open>
  A printable character: a visible ASCII character, the space excluded. A token
  resolves to a directly printable character when \<open>resolveAlias\<close> gives a string of
  one such character (a one-character token, or the alias \<open>plus\<close>).
\<close>

definition isPrintable :: "char \<Rightarrow> bool" where
  "isPrintable ch \<longleftrightarrow> 33 \<le> (of_char ch :: nat) \<and> (of_char ch :: nat) \<le> 126"

subsection \<open>Events, bindings and the engine state\<close>

record element =
  className :: string
  contentEditable :: "string option"

record event =
  etype :: action
  which :: nat
  shiftKey :: bool
  altKey :: bool
  ctrlKey :: bool
  metaKey :: bool
  target :: element

datatype exn = TypeError

text \<open>
  The functions stored in a binding. \<open>User i rf\<close> is a function supplied by the
  caller: \<open>i\<close> names it, \<open>rf\<close> says that it returns exactly \<open>false\<close>; it is assumed
  to return and not to call back into the engine. \<open>IncreaseSequence nextAction combo\<close>
  is the closure returned by \<open>_increaseSequence\<close>, and \<open>CallbackAndReset i rf action
  combo\<close> the closure \<open>_callbackAndReset\<close> of \<open>#bindSequence\<close> around the user
  function, with the variables they capture.
\<close>

datatype callback =
    User nat bool
  | IncreaseSequence action string
  | CallbackAndReset nat bool "action option" string

text \<open>
  An entry of \<open>_callbacks\<close>. \<open>seq\<close> is \<open>None\<close> and \<open>level\<close> is 0 where the source
  stores \<open>undefined\<close>; the source reads \<open>level\<close> only behind a test that \<open>seq\<close> is set.
\<close>

record binding =
  callback :: callback
  modifiers :: "string list"
  action :: action
  seq :: "string option"
  level :: nat
  combo :: string

record engine =
  callbacks :: "(string \<times> binding list) list"
  directMap :: "(string \<times> callback) list"
  sequenceLevels :: "(string \<times> nat) list"
  resetTimer :: "nat option"
  ignoreNextKeyup :: "string option"
  ignoreNextKeypress :: bool
  nextExpectedAction :: "action option"
  mouseTrapEnabled :: bool

definition new_engine :: engine where
  "new_engine =
     \<lparr>callbacks = [], directMap = [], sequenceLevels = [], resetTimer = None,
      ignoreNextKeyup = None, ignoreNextKeypress = False, nextExpectedAction = None,
      mouseTrapEnabled = True\<rparr>"

definition pause :: "engine \<Rightarrow> engine" where
  "pause st = st\<lparr>mouseTrapEnabled := False\<rparr>"

definition unpause :: "engine \<Rightarrow> engine" where
  "unpause st = st\<lparr>mouseTrapEnabled := True\<rparr>"

definition reset :: "engine \<Rightarrow> engine" where
  "reset st = st\<lparr>callbacks := [], directMap := []\<rparr>"

text \<open>\<open>haystack.indexOf(needle) > -1\<close>.\<close>

fun contains :: "string \<Rightarrow> string \<Rightarrow> bool" where
  "contains [] needle = (needle = [])"
| "contains (c # cs) needle = (prefix needle (c # cs) \<or> contains cs needle)"

text \<open>
  \<open>stopCallback\<close>; the result is the truthiness of what the source returns.
\<close>

definition stopCallback :: "engine \<Rightarrow> element \<Rightarrow> bool" where
  "stopCallback st el =
     (if \<not> mouseTrapEnabled st then True
      else if contains ('' '' @ className el @ '' '') '' mousetrap '' then False
      else contentEditable el = Some ''true'')"

subsection \<open>Sequence state machine and dispatcher\<close>

text \<open>
  \<open>#resetSequences\<close>; \<open>doNotReset\<close> lists the property names set in the object.
\<close>

definition resetSequences :: "string list \<Rightarrow> engine \<Rightarrow> engine" where
  "resetSequences doNotReset st =
     (let activeSequences = list_ex (\<lambda>k. k \<in> set doNotReset) (map fst (sequenceLevels st));
          levels = map (\<lambda>(k, v). if k \<in> set doNotReset then (k, v) else (k, 0))
                     (sequenceLevels st)
      in st\<lparr>sequenceLevels := levels,
            nextExpectedAction := (if activeSequences then nextExpectedAction st else None)\<rparr>)"

text \<open>
  \<open>#resetSequenceTimer\<close>: cancel the pending timer and start one of 1000 ms. Nothing
  in the source calls it: the closure of \<open>_increaseSequence\<close> calls a property named
  \<open>_resetSequenceTimer\<close> instead (see \<open>increaseSequence\<close> below).
\<close>

definition resetSequenceTimer :: "engine \<Rightarrow> engine" where
  "resetSequenceTimer st = st\<lparr>resetTimer := Some 1000\<rparr>"

fun join :: "string list \<Rightarrow> string" where
  "join [] = []"
| "join [x] = x"
| "join (x # y # ys) = x @ '','' @ join (y # ys)"

text \<open>
  \<open>#modifiersMatch\<close>. \<open>Array.prototype.sort\<close> also reorders its argument in place;
  modifier arrays are read by this function only, which sorts them before it compares,
  so the model leaves the stored arrays in the order they were bound.
\<close>

definition modifiersMatch :: "string list \<Rightarrow> string list \<Rightarrow> bool" where
  "modifiersMatch modifiers1 modifiers2 \<longleftrightarrow> join (sort modifiers1) = join (sort modifiers2)"

definition eventModifiers :: "event \<Rightarrow> string list" where
  "eventModifiers e =
     (if shiftKey e then [''shift''] else []) @ (if altKey e then [''alt''] else []) @
     (if ctrlKey e then [''ctrl''] else []) @ (if metaKey e then [''meta''] else [])"

text \<open>
  The tests of the loop of \<open>#getMatches\<close> on one entry. \<open>isCandidate\<close> holds when
  none of the two \<open>continue\<close> statements is taken and the condition on the modifiers
  holds, so that the entry is pushed to \<open>matches\<close>. The comparison of
  \<open>_sequenceLevels[callback.seq]\<close> with \<open>callback.level\<close> is a comparison of optional
  values: a missing level differs from every number.
\<close>

definition isCandidate :: "engine \<Rightarrow> string list \<Rightarrow> event \<Rightarrow> string option \<Rightarrow> binding \<Rightarrow> bool" where
  "isCandidate st mods e sequenceName cb \<longleftrightarrow>
     \<not> (sequenceName = None \<and> seq cb \<noteq> None \<and>
        map_of (sequenceLevels st) (the (seq cb)) \<noteq> Some (level cb)) \<and>
     etype e = action cb \<and>
     ((etype e = Keypress \<and> \<not> metaKey e \<and> \<not> ctrlKey e) \<or> modifiersMatch mods (modifiers cb))"

text \<open>
  \<open>deleteCombo || deleteSequence\<close>. \<open>combination\<close> is \<open>None\<close> when the caller passes
  no combination, and then it equals no \<open>combo\<close>.
\<close>

definition isDeleted :: "string option \<Rightarrow> string option \<Rightarrow> nat \<Rightarrow> binding \<Rightarrow> bool" where
  "isDeleted sequenceName combination lvl cb \<longleftrightarrow>
     (sequenceName = None \<and> Some (combo cb) = combination) \<or>
     (sequenceName \<noteq> None \<and> seq cb = sequenceName \<and> level cb = lvl)"

text \<open>
  The loop of \<open>#getMatches\<close> over \<open>_callbacks[character]\<close>, from index \<open>i\<close> on; the
  result is the rest of the array as the loop leaves it and the matches it pushes.
  \<open>splice(i, 1)\<close> moves the entry at \<open>i + 1\<close> to \<open>i\<close> and \<open>++i\<close> then steps over
  it: the entry after a deleted one stays in the array and is not examined.
\<close>

fun getMatches_loop :: "(binding \<Rightarrow> bool) \<Rightarrow> (binding \<Rightarrow> bool) \<Rightarrow> binding list \<Rightarrow> binding list \<times> binding list" where
  "getMatches_loop cand del [] = ([], [])"
| "getMatches_loop cand del [cb] =
     (if cand cb then (if del cb then [] else [cb], [cb]) else ([cb], []))"
| "getMatches_loop cand del (cb # nxt # rest) =
     (if cand cb then
        (if del cb then
           (let (kept, matches) = getMatches_loop cand del rest in (nxt # kept, cb # matches))
         else
           (let (kept, matches) = getMatches_loop cand del (nxt # rest)
            in (cb # kept, cb # matches)))
      else
        (let (kept, matches) = getMatches_loop cand del (nxt # rest) in (cb # kept, matches)))"

text \<open>
  \<open>#getMatches\<close>: the engine after the deletions and the array of matches. Without
  an entry for \<open>character\<close> it returns at once; an empty array is truthy.
\<close>

definition getMatches :: "engine \<Rightarrow> string \<Rightarrow> string list \<Rightarrow> event \<Rightarrow> string option \<Rightarrow> string option \<Rightarrow> nat \<Rightarrow> engine \<times> binding list" where
  "getMatches st character mods e sequenceName combination lvl =
     (case map_of (callbacks st) character of
        None \<Rightarrow> (st, [])
      | Some cbs \<Rightarrow>
          (let mods' = (if etype e = Keyup \<and> isModifier character then [character] else mods);
               (kept, matches) =
                  getMatches_loop (isCandidate st mods' e sequenceName)
                    (isDeleted sequenceName combination lvl) cbs
           in (st\<lparr>callbacks := assign character kept (callbacks st)\<rparr>, matches)))"

text \<open>\<open>String.fromCharCode\<close> and \<open>toLowerCase\<close> on ASCII.\<close>

definition fromCharCode :: "nat \<Rightarrow> string" where
  "fromCharCode n = [char_of n]"

definition lowerChar :: "char \<Rightarrow> char" where
  "lowerChar c =
     (if 65 \<le> (of_char c :: nat) \<and> (of_char c :: nat) \<le> 90 then char_of (of_char c + 32 :: nat)
      else c)"

definition toLowerCase :: "string \<Rightarrow> string" where
  "toLowerCase s = map lowerChar s"

text \<open>
  \<open>#characterFromEvent\<close>. An entry of \<open>_MAP\<close> is used when it is truthy, that is a
  non-empty string; the values of \<open>_KEYCODE_MAP\<close> are all non-empty.
\<close>

definition characterFromEvent :: "tables \<Rightarrow> event \<Rightarrow> string" where
  "characterFromEvent tb e =
     (if etype e = Keypress then
        (if \<not> shiftKey e then toLowerCase (fromCharCode (which e)) else fromCharCode (which e))
      else
        (case map_of (MAP tb) (which e) of
           Some (c # cs) \<Rightarrow> c # cs
         | _ \<Rightarrow>
            (case map_of KEYCODE_MAP (which e) of
               Some n \<Rightarrow> n
             | None \<Rightarrow> toLowerCase (fromCharCode (which e)))))"

text \<open>
  Calling a stored function. The result is the engine, the user functions that ran,
  in order, and the exception raised, if any.
  \<^item> In \<open>_fireCallback\<close>, when the function returns exactly \<open>false\<close> the source
    evaluates \<open>this.#preventDefault(e)\<close> on the instance. \<open>#preventDefault\<close> is a
    static private method, which only the class object carries, so the access raises
    \<open>TypeError\<close>.
  \<^item> The closure of \<open>_increaseSequence\<close> sets \<open>_nextExpectedAction\<close>, increments the
    level and calls \<open>self._resetSequenceTimer()\<close>. The instance has no property of
    that name (the method is the private \<open>#resetSequenceTimer\<close>), so the call raises
    \<open>TypeError\<close> and no timer is started. The level is present because
    \<open>#bindSequence\<close> stores it before it creates the closure.
  \<^item> \<open>_callbackAndReset\<close> fires the user function, records the character for the
    next key-up unless the action is \<open>keyup\<close>, and passes \<open>self._resetSequences\<close>,
    which is \<open>undefined\<close> for the same reason, to \<open>setTimeout\<close>: no reset is scheduled.
\<close>

definition fireUser :: "engine \<Rightarrow> nat \<Rightarrow> bool \<Rightarrow> event \<Rightarrow> nat list \<times> exn option" where
  "fireUser st i rf e =
     (if stopCallback st (target e) then ([], None)
      else ([i], if rf then Some TypeError else None))"

definition increaseSequence :: "action \<Rightarrow> string \<Rightarrow> engine \<Rightarrow> engine \<times> exn option" where
  "increaseSequence nextAction cmb st =
     (st\<lparr>nextExpectedAction := Some nextAction,
         sequenceLevels :=
           (case map_of (sequenceLevels st) cmb of
              Some n \<Rightarrow> assign cmb (Suc n) (sequenceLevels st)
            | None \<Rightarrow> sequenceLevels st)\<rparr>,
      Some TypeError)"

definition callbackAndReset :: "tables \<Rightarrow> nat \<Rightarrow> bool \<Rightarrow> action option \<Rightarrow> engine \<Rightarrow> event \<Rightarrow> engine \<times> nat list \<times> exn option" where
  "callbackAndReset tb i rf act st e =
     (case fireUser st i rf e of
        (users, Some x) \<Rightarrow> (st, users, Some x)
      | (users, None) \<Rightarrow>
          ((if act \<noteq> Some Keyup then st\<lparr>ignoreNextKeyup := Some (characterFromEvent tb e)\<rparr>
            else st), users, None))"

fun fireCallback :: "tables \<Rightarrow> engine \<Rightarrow> callback \<Rightarrow> event \<Rightarrow> engine \<times> nat list \<times> exn option" where
  "fireCallback tb st (User i rf) e = (st, fireUser st i rf e)"
| "fireCallback tb st (IncreaseSequence nextAction cmb) e =
     (if stopCallback st (target e) then (st, [], None)
      else (let (st', x) = increaseSequence nextAction cmb st in (st', [], x)))"
| "fireCallback tb st (CallbackAndReset i rf act cmb) e =
     (if stopCallback st (target e) then (st, [], None)
      else callbackAndReset tb i rf act st e)"

text \<open>
  The local variables of \<open>handleKey\<close> during its second loop. \<open>ran\<close> (the user
  functions that ran) and \<open>fired\<close> (the entries handed to \<open>_fireCallback\<close>) are not
  variables of the source: they record what the loop does.
\<close>

record dispatch =
  eng :: engine
  processedSequenceCallback :: bool
  doNotReset :: "string list"
  ran :: "nat list"
  fired :: "binding list"

definition start_dispatch :: "engine \<Rightarrow> dispatch" where
  "start_dispatch st =
     \<lparr>eng = st, processedSequenceCallback = False, doNotReset = [], ran = [], fired = []\<rparr>"

text \<open>The first loop of \<open>handleKey\<close>: the largest level among the sequence matches.\<close>

definition maxLevelOf :: "binding list \<Rightarrow> nat" where
  "maxLevelOf cbs = fold (\<lambda>cb m. if seq cb \<noteq> None then max m (level cb) else m) cbs 0"

text \<open>
  One call of \<open>_fireCallback\<close> from the second loop, with the bookkeeping around it.
\<close>

definition fireEntry :: "tables \<Rightarrow> event \<Rightarrow> binding \<Rightarrow> dispatch \<Rightarrow> dispatch \<times> exn option" where
  "fireEntry tb e cb d =
     (let (st', users, x) = fireCallback tb (eng d) (callback cb) e
      in (d\<lparr>eng := st', ran := ran d @ users, fired := fired d @ [cb]\<rparr>, x))"

text \<open>
  The second loop of \<open>handleKey\<close>. An exception leaves the loop and the function at
  once, with the engine as it is at that point.
\<close>

fun fireLoop :: "tables \<Rightarrow> event \<Rightarrow> nat \<Rightarrow> binding list \<Rightarrow> dispatch \<Rightarrow> dispatch \<times> exn option" where
  "fireLoop tb e maxLevel [] d = (d, None)"
| "fireLoop tb e maxLevel (cb # cbs) d =
     (if seq cb \<noteq> None then
        (if level cb \<noteq> maxLevel then fireLoop tb e maxLevel cbs d
         else
           (case fireEntry tb e cb
                   (d\<lparr>processedSequenceCallback := True,
                      doNotReset := doNotReset d @ [the (seq cb)]\<rparr>) of
              (d', Some x) \<Rightarrow> (d', Some x)
            | (d', None) \<Rightarrow> fireLoop tb e maxLevel cbs d'))
      else if \<not> processedSequenceCallback d then
        (case fireEntry tb e cb d of
           (d', Some x) \<Rightarrow> (d', Some x)
         | (d', None) \<Rightarrow> fireLoop tb e maxLevel cbs d')
      else fireLoop tb e maxLevel cbs d)"

text \<open>\<open>handleKey\<close>.\<close>

definition handleKey :: "tables \<Rightarrow> engine \<Rightarrow> string \<Rightarrow> string list \<Rightarrow> event \<Rightarrow> dispatch \<times> exn option" where
  "handleKey tb st character mods e =
     (let (st1, cbs) = getMatches st character mods e None None 0;
          (d, x) = fireLoop tb e (maxLevelOf cbs) cbs (start_dispatch st1)
      in case x of
           Some ex \<Rightarrow> (d, Some ex)
         | None \<Rightarrow>
             (let st2 = eng d;
                  ignoreThisKeypress = (etype e = Keypress \<and> ignoreNextKeypress st2);
                  st3 = (if nextExpectedAction st2 = Some (etype e) \<and> \<not> isModifier character
                            \<and> \<not> ignoreThisKeypress
                         then resetSequences (doNotReset d) st2 else st2);
                  st4 = st3\<lparr>ignoreNextKeypress :=
                              (processedSequenceCallback d \<and> etype e = Keydown)\<rparr>
              in (d\<lparr>eng := st4\<rparr>, None)))"

text \<open>
  \<open>#handleKeyEvent\<close>. \<open>!character\<close> holds for the empty string only;
  \<open>_ignoreNextKeyup\<close> is \<open>None\<close> where the source holds \<open>false\<close>, and \<open>===\<close> on two
  strings compares their contents.
\<close>

definition handleKeyEvent :: "tables \<Rightarrow> engine \<Rightarrow> event \<Rightarrow> dispatch \<times> exn option" where
  "handleKeyEvent tb st e =
     (let character = characterFromEvent tb e
      in if character = [] then (start_dispatch st, None)
         else if etype e = Keyup \<and> ignoreNextKeyup st = Some character
         then (start_dispatch (st\<lparr>ignoreNextKeyup := None\<rparr>), None)
         else handleKey tb st character (eventModifiers e) e)"

subsection \<open>Binding registry\<close>

text \<open>The characters that \<open>\\s\<close> matches, within ASCII.\<close>

definition isSpace :: "char \<Rightarrow> bool" where
  "isSpace c \<longleftrightarrow> c \<in> {CHR 0x09, CHR 0x0A, CHR 0x0B, CHR 0x0C, CHR 0x0D, CHR 0x20}"

text \<open>\<open>combination.replace(/\\s+/g, ' ')\<close>.\<close>

function collapseSpaces :: "string \<Rightarrow> string" where
  "collapseSpaces [] = []"
| "collapseSpaces (c # cs) =
     (if isSpace c then CHR '' '' # collapseSpaces (dropWhile isSpace cs)
      else c # collapseSpaces cs)"
  by pat_completeness auto
termination
  by (relation "measure length") (auto simp: length_dropWhile_le le_imp_less_Suc)

text \<open>The key of \<open>_directMap\<close>: \<open>combination + ':' + action\<close>.\<close>

definition directKey :: "string \<Rightarrow> action option \<Rightarrow> string" where
  "directKey combination act =
     combination @ '':'' @ (case act of None \<Rightarrow> ''undefined'' | Some a \<Rightarrow> action_name a)"

text \<open>The event \<open>{type: info.action}\<close> that \<open>_bindSingle\<close> builds; its flags are unset.\<close>

definition bareEvent :: "action \<Rightarrow> event" where
  "bareEvent a =
     \<lparr>etype = a, which = 0, shiftKey = False, altKey = False, ctrlKey = False,
      metaKey = False, target = \<lparr>className = [], contentEditable = None\<rparr>\<rparr>"

text \<open>
  \<open>_bindSingle\<close> for a combination of one token (no white space): store the function
  in \<open>_directMap\<close>, parse, create the array when there is none, remove an existing
  match, then \<open>unshift\<close> a sequence entry or \<open>push\<close> a plain one.
\<close>

definition bindToken :: "tables \<Rightarrow> string \<Rightarrow> callback \<Rightarrow> action option \<Rightarrow> string option \<Rightarrow> nat \<Rightarrow> engine \<Rightarrow> engine" where
  "bindToken tb combination cb act sequenceName lvl st =
     (let st1 = st\<lparr>directMap := assign (directKey combination act) cb (directMap st)\<rparr>;
          info = getKeyInfo tb combination act;
          st2 = (case map_of (callbacks st1) (key info) of
                   None \<Rightarrow> st1\<lparr>callbacks := assign (key info) [] (callbacks st1)\<rparr>
                 | Some _ \<Rightarrow> st1);
          (st3, _) = getMatches st2 (key info) (info_modifiers info)
                       (bareEvent (info_action info)) sequenceName (Some combination) lvl;
          entry = \<lparr>callback = cb, modifiers = info_modifiers info,
                   action = info_action info, seq = sequenceName, level = lvl,
                   combo = combination\<rparr>;
          old = (case map_of (callbacks st3) (key info) of Some cbs \<Rightarrow> cbs | None \<Rightarrow> [])
      in st3\<lparr>callbacks :=
              assign (key info) (if sequenceName \<noteq> None then entry # old else old @ [entry])
                (callbacks st3)\<rparr>)"

text \<open>
  \<open>#bindSequence\<close>. Its calls of \<open>_bindSingle\<close> pass one token of the split
  combination, which holds no white space, so they are calls of \<open>bindToken\<close>.
\<close>

definition bindSequence :: "tables \<Rightarrow> string \<Rightarrow> string list \<Rightarrow> nat \<Rightarrow> bool \<Rightarrow> action option \<Rightarrow> engine \<Rightarrow> engine" where
  "bindSequence tb cmb keys i rf act st =
     fold (\<lambda>n s.
            (let isFinal = (n + 1 = length keys);
                 wrappedCallback =
                   (if isFinal then CallbackAndReset i rf act cmb
                    else IncreaseSequence
                           (case act of
                              Some a \<Rightarrow> a
                            | None \<Rightarrow> info_action (getKeyInfo tb (keys ! (n + 1)) None))
                           cmb)
             in bindToken tb (keys ! n) wrappedCallback act (Some cmb) n s))
       [0 ..< length keys]
       (st\<lparr>sequenceLevels := assign cmb 0 (sequenceLevels st)\<rparr>)"

text \<open>
  \<open>_bindSingle\<close> as \<open>_bindMultiple\<close> calls it, with a user function and neither
  \<open>sequenceName\<close> nor \<open>level\<close>. The key of \<open>_directMap\<close> is built from the
  combination as passed, before white space is collapsed. When the split has one part
  the combination holds no white space and is its own normal form.
\<close>

definition bindSingle :: "tables \<Rightarrow> string \<Rightarrow> nat \<Rightarrow> bool \<Rightarrow> action option \<Rightarrow> engine \<Rightarrow> engine" where
  "bindSingle tb combination i rf act st =
     (let cmb = collapseSpaces combination;
          sequence = split (CHR '' '') cmb
      in if length sequence > 1
         then bindSequence tb cmb sequence i rf act
                (st\<lparr>directMap := assign (directKey combination act) (User i rf) (directMap st)\<rparr>)
         else bindToken tb combination (User i rf) act None 0 st)"

text \<open>\<open>bind\<close> with an array of combinations (\<open>_bindMultiple\<close>).\<close>

definition bind :: "tables \<Rightarrow> string list \<Rightarrow> nat \<Rightarrow> bool \<Rightarrow> action option \<Rightarrow> engine \<Rightarrow> engine" where
  "bind tb keys i rf act st = fold (\<lambda>k s. bindSingle tb k i rf act s) keys st"

text \<open>
  \<open>unbind\<close> binds a fresh empty function, named \<open>i\<close> here, which returns
  \<open>undefined\<close>.
\<close>

definition unbind :: "tables \<Rightarrow> string list \<Rightarrow> nat \<Rightarrow> action option \<Rightarrow> engine \<Rightarrow> engine" where
  "unbind tb keys i act st = bind tb keys i False act st"

text \<open>
  \<open>trigger\<close> calls the function stored in \<open>_directMap\<close>, if there is one, with the
  empty object \<open>{}\<close> as the event; the result of the function is not used. The
  stored function is a user function, or, for a token of a sequence, one of the two
  closures. Inside \<open>_callbackAndReset\<close> the event \<open>{}\<close> has no target: unless the
  engine is paused, \<open>stopCallback\<close> reads \<open>className\<close> of \<open>undefined\<close> and raises;
  when it is paused nothing is fired and the character recorded for the next key-up
  is that of code 0, which is what \<open>String.fromCharCode(undefined)\<close> gives.
\<close>

definition trigger :: "string \<Rightarrow> action option \<Rightarrow> engine \<Rightarrow> engine \<times> nat list \<times> exn option" where
  "trigger keys act st =
     (case map_of (directMap st) (directKey keys act) of
        None \<Rightarrow> (st, [], None)
      | Some (User i rf) \<Rightarrow> (st, [i], None)
      | Some (IncreaseSequence nextAction cmb) \<Rightarrow>
          (let (st', x) = increaseSequence nextAction cmb st in (st', [], x))
      | Some (CallbackAndReset i rf a cmb) \<Rightarrow>
          (if mouseTrapEnabled st then (st, [], Some TypeError)
           else ((if a \<noteq> Some Keyup then st\<lparr>ignoreNextKeyup := Some (fromCharCode 0)\<rparr>
                  else st), [], None)))"

subsection \<open>Well-formed registries and sample inputs\<close>

text \<open>
  The invariant of the registry that the matching rule relies on: the modifiers of
  every entry are among the four modifier names (they come from \<open>#getKeyInfo\<close>).
\<close>

definition wellFormed :: "engine \<Rightarrow> bool" where
  "wellFormed st \<longleftrightarrow>
     list_all (\<lambda>(k, cbs). list_all (\<lambda>cb. set (modifiers cb) \<subseteq> modifierNames) cbs)
       (callbacks st)"

text \<open>
  The order of an array of \<open>_callbacks\<close>: sequence entries are put at the front and
  plain entries at the end, so no plain entry stands before a sequence entry.
\<close>

fun seqFirst :: "binding list \<Rightarrow> bool" where
  "seqFirst [] = True"
| "seqFirst (cb # cbs) =
     (if seq cb \<noteq> None then seqFirst cbs else list_all (\<lambda>c. seq c = None) cbs)"

definition sequencesFirst :: "engine \<Rightarrow> bool" where
  "sequencesFirst st \<longleftrightarrow> list_all (\<lambda>(k, cbs). seqFirst cbs) (callbacks st)"

text \<open>
  What the matching rule says of a list of matches: the sequence matches at level
  \<open>m\<close>, and after them the plain matches when no sequence match fires (\<open>p\<close> says that
  one has fired already).
\<close>

definition sequenceMatches :: "nat \<Rightarrow> binding list \<Rightarrow> binding list" where
  "sequenceMatches m cbs = filter (\<lambda>cb. seq cb \<noteq> None \<and> level cb = m) cbs"

definition plainMatches :: "binding list \<Rightarrow> binding list" where
  "plainMatches cbs = filter (\<lambda>cb. seq cb = None) cbs"

definition expectedFired :: "nat \<Rightarrow> bool \<Rightarrow> binding list \<Rightarrow> binding list" where
  "expectedFired m p cbs =
     sequenceMatches m cbs @ (if p \<or> sequenceMatches m cbs \<noteq> [] then [] else plainMatches cbs)"

text \<open>An element without classes that is not editable, and a key event on it.\<close>

definition plainElement :: element where
  "plainElement = \<lparr>className = [], contentEditable = None\<rparr>"

definition keyEvent :: "action \<Rightarrow> nat \<Rightarrow> event" where
  "keyEvent a w =
     \<lparr>etype = a, which = w, shiftKey = False, altKey = False, ctrlKey = False,
      metaKey = False, target = plainElement\<rparr>"

section \<open>Properties of the combination parser\<close>

lemma replace_plus_plus_id: "CHR ''+'' \<notin> set cs \<Longrightarrow> replace_plus_plus cs = cs"
  by (induction cs rule: replace_plus_plus.induct) auto

lemma split_id: "d \<notin> set cs \<Longrightarrow> split d cs = [cs]"
  by (induction cs) auto

lemma split_not_Nil: "split d cs \<noteq> []"
  by (induction cs) (auto split: list.splits)

lemma keysFromString_not_Nil: "keysFromString c \<noteq> []"
  by (simp add: keysFromString_def split_not_Nil)

lemma keysFromString_single: "CHR ''+'' \<notin> set c \<Longrightarrow> keysFromString c = [c]"
  by (auto simp: keysFromString_def replace_plus_plus_id split_id)

lemma fst_keyStep: "fst (keyStep tb act tok s) = resolveKey tb act tok"
  by (cases s) (simp add: keyStep_def Let_def)

lemma fst_fold_keyStep:
  "toks \<noteq> [] \<Longrightarrow> fst (fold (keyStep tb act) toks s) = resolveKey tb act (last toks)"
  by (induction toks arbitrary: s) (auto simp: fst_keyStep)

lemma key_getKeyInfo: "key (getKeyInfo tb c act) = resolveKey tb act (last (keysFromString c))"
  using fst_fold_keyStep [OF keysFromString_not_Nil, of tb act c "([], [])"]
  by (simp add: getKeyInfo_def split_beta)





lemma keyStep_alias_cong:
  "resolveAlias tb t1 = resolveAlias tb t2 \<Longrightarrow> keyStep tb act t1 = keyStep tb act t2"
  by (simp add: keyStep_def resolveKey_def)

lemma resolveAlias_idem: "resolveAlias tb (resolveAlias tb c) = resolveAlias tb c"
  by (auto simp: resolveAlias_def SPECIAL_ALIASES_def split: option.splits if_splits)

lemma resolveAlias_plus:
  "CHR ''+'' \<notin> set c \<Longrightarrow> resolveAlias tb c = ''+'' \<or> CHR ''+'' \<notin> set (resolveAlias tb c)"
  by (auto simp: resolveAlias_def SPECIAL_ALIASES_def split: option.splits if_splits)

lemma keysFromString_alias:
  assumes "CHR ''+'' \<notin> set c"
  shows "keysFromString (resolveAlias tb c) = [resolveAlias tb c]"
  using resolveAlias_plus [OF assms, of tb]
  by (auto simp: keysFromString_single) (simp add: keysFromString_def)

lemma getKeyInfo_single:
  "keysFromString c = [t] \<Longrightarrow>
   getKeyInfo tb c act =
     (let (k, mods) = keyStep tb act t ([], [])
      in \<lparr>key = k, info_modifiers = mods, info_action = pickBestAction tb k mods act\<rparr>)"
  by (simp add: getKeyInfo_def)

lemma snd_keyStep_subset:
  "set (snd s) \<subseteq> modifierNames \<Longrightarrow> set (snd (keyStep tb act tok s)) \<subseteq> modifierNames"
  by (cases s) (auto simp: keyStep_def Let_def isModifier_def modifierNames_def)

lemma snd_fold_keyStep_subset:
  "set (snd s) \<subseteq> modifierNames \<Longrightarrow>
   set (snd (fold (keyStep tb act) toks s)) \<subseteq> modifierNames"
proof (induction toks arbitrary: s)
  case Nil
  then show ?case by simp
next
  case (Cons t toks)
  show ?case using Cons.IH [OF snd_keyStep_subset [OF Cons.prems]] by simp
qed

lemma modifiers_getKeyInfo_subset:
  "set (info_modifiers (getKeyInfo tb c act)) \<subseteq> modifierNames"
  using snd_fold_keyStep_subset [of "([], [])" tb act "keysFromString c"]
  by (simp add: getKeyInfo_def split_beta)

lemma snd_fold_keyStep_plain:
  "act = None \<or> act = Some Keypress \<Longrightarrow>
   snd (fold (keyStep tb act) toks s) = snd s @ filter isModifier (map (resolveAlias tb) toks)"
  by (induction toks arbitrary: s)
     (auto simp: keyStep_def resolveKey_def usesShift_def split_beta Let_def)

lemma modifiers_getKeyInfo_plain:
  "act = None \<or> act = Some Keypress \<Longrightarrow>
   info_modifiers (getKeyInfo tb c act) =
     filter isModifier (map (resolveAlias tb) (keysFromString c))"
  using snd_fold_keyStep_plain [of act tb "keysFromString c" "([], [])"]
  by (simp add: getKeyInfo_def split_beta)










text \<open>
  C9, as the claim states it, fails when an explicit key-down action is given: \<open>?\<close>
  parses to the key \<open>/\<close> with the modifier \<open>shift\<close>, and parsing \<open>/\<close> gives no
  modifier.
\<close>

theorem getKeyInfo_idempotent_counterexample:
  "getKeyInfo (initial_tables False)
     (key (getKeyInfo (initial_tables False) ''?'' (Some Keydown))) (Some Keydown)
   \<noteq> getKeyInfo (initial_tables False) ''?'' (Some Keydown)"
  by code_simp

text \<open>
  C9, amended: for every combination of one token (no \<open>+\<close>, no space) that resolves
  to a directly printable character, parsing the key that a first parse returns, with
  the same action argument, returns the same descriptor, provided that no explicit
  action or the action \<open>keypress\<close> is given, or that the character is not in the shift
  table.
\<close>

theorem getKeyInfo_idempotent:
  assumes plus: "CHR ''+'' \<notin> set c"
    and space: "CHR '' '' \<notin> set c"
    and char: "resolveAlias tb c = [ch]" "isPrintable ch"
    and direct: "act = None \<or> act = Some Keypress \<or> map_of SHIFT_MAP [ch] = None"
  shows "getKeyInfo tb (key (getKeyInfo tb c act)) act = getKeyInfo tb c act"
proof -
  have noshift: "\<not> usesShift act (resolveAlias tb c)"
    using direct char by (auto simp: usesShift_def)
  have k: "key (getKeyInfo tb c act) = resolveAlias tb c"
    using noshift by (simp add: key_getKeyInfo keysFromString_single [OF plus] resolveKey_def)
  have "getKeyInfo tb (resolveAlias tb c) act =
      (let (k, mods) = keyStep tb act (resolveAlias tb c) ([], [])
       in \<lparr>key = k, info_modifiers = mods, info_action = pickBestAction tb k mods act\<rparr>)"
    by (rule getKeyInfo_single [OF keysFromString_alias [OF plus]])
  also have "keyStep tb act (resolveAlias tb c) = keyStep tb act c"
    by (rule keyStep_alias_cong) (rule resolveAlias_idem)
  also have "(let (k, mods) = keyStep tb act c ([], [])
       in \<lparr>key = k, info_modifiers = mods, info_action = pickBestAction tb k mods act\<rparr>) =
      getKeyInfo tb c act"
    by (rule getKeyInfo_single [OF keysFromString_single [OF plus], symmetric])
  finally show ?thesis by (simp add: k)
qed


theorem getKeyInfo_idempotent_witness:
  "CHR ''+'' \<notin> set ''?'' \<and> CHR '' '' \<notin> set ''?'' \<and>
   resolveAlias (initial_tables False) ''?'' = ''?'' \<and> isPrintable CHR ''?'' \<and>
   getKeyInfo (initial_tables False) (key (getKeyInfo (initial_tables False) ''?'' None)) None =
     getKeyInfo (initial_tables False) ''?'' None \<and>
   resolveAlias (initial_tables False) ''a'' = ''a'' \<and> isPrintable CHR ''a'' \<and>
   map_of SHIFT_MAP ''a'' = None \<and>
   getKeyInfo (initial_tables False)
       (key (getKeyInfo (initial_tables False) ''a'' (Some Keydown))) (Some Keydown) =
     getKeyInfo (initial_tables False) ''a'' (Some Keydown) \<and>
   resolveAlias (initial_tables False) ''plus'' = ''+'' \<and>
   getKeyInfo (initial_tables False)
       (key (getKeyInfo (initial_tables False) ''plus'' None)) None =
     getKeyInfo (initial_tables False) ''plus'' None"
proof -
  have q: "resolveAlias (initial_tables False) ''?'' = ''?''" "isPrintable CHR ''?''"
    by (simp_all add: resolveAlias_def SPECIAL_ALIASES_def isPrintable_def)
  have a: "resolveAlias (initial_tables False) ''a'' = ''a''" "isPrintable CHR ''a''"
    "map_of SHIFT_MAP ''a'' = None"
    by (simp_all add: resolveAlias_def SPECIAL_ALIASES_def isPrintable_def SHIFT_MAP_def)
  have p: "resolveAlias (initial_tables False) ''plus'' = ''+''" "isPrintable CHR ''+''"
    by (simp_all add: resolveAlias_def SPECIAL_ALIASES_def isPrintable_def)
  show ?thesis
    using q a p
      getKeyInfo_idempotent [of "''?''" "initial_tables False" "CHR ''?''" None]
      getKeyInfo_idempotent [of "''a''" "initial_tables False" "CHR ''a''" "Some Keydown"]
      getKeyInfo_idempotent [of "''plus''" "initial_tables False" "CHR ''+''" None]
    by simp
qed

text \<open>
  C10, as the claim states it, fails when an explicit key-down action is given: the
  shift table turns \<open>+\<close> into the key \<open>=\<close> with the modifier \<open>shift\<close>.
\<close>

theorem getKeyInfo_plus_counterexample:
  "\<not> (key (getKeyInfo (initial_tables False) ''+'' (Some Keydown)) = ''+'' \<and>
      info_modifiers (getKeyInfo (initial_tables False) ''+'' (Some Keydown)) = [])"
  by code_simp

text \<open>
  C10, amended: the combination \<open>+\<close> is never split at the separator: its token list
  is the single token \<open>+\<close>. Without an explicit action, or with \<open>keypress\<close>, the
  descriptor has the key \<open>+\<close> and no modifier; with an explicit \<open>keydown\<close> or
  \<open>keyup\<close> it has the key \<open>=\<close> and the modifier \<open>shift\<close>. The key is never empty.
\<close>

theorem getKeyInfo_plus:
  "keysFromString ''+'' = [''+''] \<and>
   key (getKeyInfo tb ''+'' act) =
     (if act = Some Keydown \<or> act = Some Keyup then ''='' else ''+'') \<and>
   info_modifiers (getKeyInfo tb ''+'' act) =
     (if act = Some Keydown \<or> act = Some Keyup then [''shift''] else [])"
proof (cases act)
  case None
  then show ?thesis
    by (simp add: getKeyInfo_def keysFromString_def keyStep_def resolveKey_def
        resolveAlias_def usesShift_def SPECIAL_ALIASES_def SHIFT_MAP_def isModifier_def)
next
  case (Some a)
  then show ?thesis
    by (cases a)
       (simp_all add: getKeyInfo_def keysFromString_def keyStep_def resolveKey_def
          resolveAlias_def usesShift_def SPECIAL_ALIASES_def SHIFT_MAP_def isModifier_def)
qed

theorem getKeyInfo_plus_witness:
  "key (getKeyInfo (initial_tables False) ''+'' None) = ''+'' \<and>
   info_modifiers (getKeyInfo (initial_tables False) ''+'' None) = [] \<and>
   key (getKeyInfo (initial_tables False) ''+'' (Some Keyup)) = ''=''"
  using getKeyInfo_plus [of "initial_tables False" None]
    getKeyInfo_plus [of "initial_tables False" "Some Keyup"]
  by simp

section \<open>Properties of the suppression policy\<close>

lemma hd_split_prefix:
  "d \<notin> set w \<Longrightarrow> prefix (w @ [d]) (s @ [d]) \<longleftrightarrow> hd (split d s) = w"
proof (induction s arbitrary: w)
  case Nil
  then show ?case by (cases w) auto
next
  case (Cons c cs)
  show ?case
  proof (cases "c = d")
    case True
    with Cons.prems show ?thesis by (cases w) auto
  next
    case False
    obtain t ts where sp: "split d cs = t # ts"
      using split_not_Nil [of d cs] by (cases "split d cs") auto
    show ?thesis
    proof (cases w)
      case Nil
      with False sp show ?thesis by auto
    next
      case (Cons a w')
      then have "d \<notin> set w'" using Cons.prems by auto
      from Cons.IH [OF this] sp False Cons show ?thesis by auto
    qed
  qed
qed

lemma tl_split_contains:
  "d \<notin> set w \<Longrightarrow> contains (s @ [d]) (d # w @ [d]) \<longleftrightarrow> w \<in> set (tl (split d s))"
proof (induction s)
  case Nil
  then show ?case by auto
next
  case (Cons c cs)
  obtain t ts where sp: "split d cs = t # ts"
    using split_not_Nil [of d cs] by (cases "split d cs") auto
  show ?case
  proof (cases "c = d")
    case True
    have "contains ((c # cs) @ [d]) (d # w @ [d]) \<longleftrightarrow>
          prefix (w @ [d]) (cs @ [d]) \<or> contains (cs @ [d]) (d # w @ [d])"
      using True by simp
    also have "\<dots> \<longleftrightarrow> hd (split d cs) = w \<or> w \<in> set (tl (split d cs))"
      using hd_split_prefix [OF Cons.prems] Cons.IH [OF Cons.prems] by simp
    also have "\<dots> \<longleftrightarrow> w \<in> set (tl (split d (c # cs)))"
      using True sp by auto
    finally show ?thesis .
  next
    case False
    then show ?thesis using Cons.IH [OF Cons.prems] sp by auto
  qed
qed

lemma contains_split:
  assumes "d \<notin> set w"
  shows "contains (d # s @ [d]) (d # w @ [d]) \<longleftrightarrow> w \<in> set (split d s)"
proof -
  obtain t ts where sp: "split d s = t # ts"
    using split_not_Nil [of d s] by (cases "split d s") auto
  have "contains (d # s @ [d]) (d # w @ [d]) \<longleftrightarrow>
        prefix (w @ [d]) (s @ [d]) \<or> contains (s @ [d]) (d # w @ [d])"
    by simp
  also have "\<dots> \<longleftrightarrow> hd (split d s) = w \<or> w \<in> set (tl (split d s))"
    using hd_split_prefix [OF assms] tl_split_contains [OF assms] by simp
  also have "\<dots> \<longleftrightarrow> w \<in> set (split d s)"
    using sp by auto
  finally show ?thesis .
qed

lemma marker_class:
  "contains ('' '' @ cn @ '' '') '' mousetrap '' \<longleftrightarrow> ''mousetrap'' \<in> set (split (CHR '' '') cn)"
  using contains_split [of "CHR '' ''" "''mousetrap''" cn] by simp

lemma getMatches_enabled:
  "mouseTrapEnabled (fst (getMatches st ch mods e sn cmb lvl)) = mouseTrapEnabled st"
  by (simp add: getMatches_def split_beta Let_def split: option.splits)

lemma fireCallback_stopped:
  "stopCallback st (target e) \<Longrightarrow> fireCallback tb st cb e = (st, [], None)"
  by (cases cb) (simp_all add: fireUser_def)

lemma stopCallback_paused: "\<not> mouseTrapEnabled st \<Longrightarrow> stopCallback st el"
  by (simp add: stopCallback_def)

lemma fireEntry_paused:
  "\<not> mouseTrapEnabled (eng d) \<Longrightarrow>
   fireEntry tb e cb d = (d\<lparr>fired := fired d @ [cb]\<rparr>, None)"
  by (simp add: fireEntry_def fireCallback_stopped stopCallback_paused)

lemma fireLoop_paused:
  "\<not> mouseTrapEnabled (eng d) \<Longrightarrow>
   snd (fireLoop tb e m cbs d) = None \<and> ran (fst (fireLoop tb e m cbs d)) = ran d \<and>
   eng (fst (fireLoop tb e m cbs d)) = eng d"
  by (induction cbs arbitrary: d) (simp_all add: fireEntry_paused)

lemma handleKey_paused:
  assumes "\<not> mouseTrapEnabled st"
  shows "snd (handleKey tb st ch mods e) = None \<and> ran (fst (handleKey tb st ch mods e)) = []"
proof -
  obtain st1 cbs where g: "getMatches st ch mods e None None 0 = (st1, cbs)"
    by (cases "getMatches st ch mods e None None 0")
  have "\<not> mouseTrapEnabled st1"
    using getMatches_enabled [of st ch mods e None None 0] g assms by simp
  then have p: "\<not> mouseTrapEnabled (eng (start_dispatch st1))"
    by (simp add: start_dispatch_def)
  obtain d x where f: "fireLoop tb e (maxLevelOf cbs) cbs (start_dispatch st1) = (d, x)"
    by (cases "fireLoop tb e (maxLevelOf cbs) cbs (start_dispatch st1)")
  from fireLoop_paused [OF p, of tb e "maxLevelOf cbs" cbs] f
  have "x = None" "ran d = []" by (simp_all add: start_dispatch_def)
  then show ?thesis using g f by (simp add: handleKey_def Let_def)
qed

lemma handleKeyEvent_paused:
  assumes "\<not> mouseTrapEnabled st"
  shows "snd (handleKeyEvent tb st e) = None \<and> ran (fst (handleKeyEvent tb st e)) = []"
  using handleKey_paused [OF assms]
  by (simp add: handleKeyEvent_def Let_def start_dispatch_def)

section \<open>Properties of the dispatcher\<close>

lemma keycode_value_nonempty: "map_of KEYCODE_MAP w = Some n \<Longrightarrow> n \<noteq> []"
  by (auto simp: KEYCODE_MAP_def split: if_splits)

lemma characterFromEvent_nonempty: "characterFromEvent tb e \<noteq> []"
  by (auto simp: characterFromEvent_def toLowerCase_def fromCharCode_def
      dest: keycode_value_nonempty split: option.splits list.splits)

lemma MAP_initial_96: "map_of (MAP (initial_tables m)) 96 = Some ''0''"
  by code_simp

lemma character_numpad0:
  "etype e \<noteq> Keypress \<Longrightarrow> which e = 96 \<Longrightarrow> characterFromEvent (initial_tables m) e = ''0''"
  by (simp add: characterFromEvent_def MAP_initial_96)

lemma getKeyInfo_0_keyup:
  "getKeyInfo tb ''0'' (Some Keyup) = \<lparr>key = ''0'', info_modifiers = [], info_action = Keyup\<rparr>"
  by (simp add: getKeyInfo_def keysFromString_def keyStep_def resolveKey_def
        resolveAlias_def usesShift_def SPECIAL_ALIASES_def SHIFT_MAP_def isModifier_def
        pickBestAction_def)

lemma bind_0_keyup:
  "bind tb [''0''] i rf (Some Keyup) new_engine =
     new_engine\<lparr>callbacks := [(''0'', [\<lparr>callback = User i rf, modifiers = [], action = Keyup,
                      seq = None, level = 0, combo = ''0''\<rparr>])],
                 directMap := [(''0:keyup'', User i rf)]\<rparr>"
  by (simp add: bind_def bindSingle_def bindToken_def getKeyInfo_0_keyup isSpace_def
      getMatches_def new_engine_def directKey_def Let_def)


text \<open>
  C7: an event is dropped, with no function run, nothing handed to \<open>_fireCallback\<close>
  and no exception, when no character resolves (the engine is left as it is) or when
  it is a key-up whose character is the one stored in \<open>_ignoreNextKeyup\<close> (the flag is
  cleared and nothing else changes). A key-up of the keypad digit 0 (code 96) resolves
  to the non-empty string \<open>0\<close>; with no suppression pending for it the event goes on
  to \<open>handleKey\<close>, and a function bound to \<open>0\<close> for \<open>keyup\<close> runs.
\<close>

theorem handleKeyEvent_drop:
 "(characterFromEvent tb e = [] \<or>
     (etype e = Keyup \<and> ignoreNextKeyup st = Some (characterFromEvent tb e)) \<longrightarrow>
     handleKeyEvent tb st e =
       (start_dispatch (if characterFromEvent tb e = [] then st
                        else st\<lparr>ignoreNextKeyup := None\<rparr>), None)) \<and>
  (etype e = Keyup \<and> which e = 96 \<and> ignoreNextKeyup st \<noteq> Some ''0'' \<longrightarrow>
     characterFromEvent (initial_tables m) e = ''0'' \<and>
     handleKeyEvent (initial_tables m) st e =
       handleKey (initial_tables m) st ''0'' (eventModifiers e) e) \<and>
  (\<not> stopCallback new_engine el \<longrightarrow>
     ran (fst (handleKeyEvent (initial_tables m)
                (bind (initial_tables m) [''0''] i rf (Some Keyup) new_engine)
                \<lparr>etype = Keyup, which = 96, shiftKey = False, altKey = False,
                 ctrlKey = False, metaKey = False, target = el\<rparr>)) = [i])"
proof (intro conjI impI)
  assume "characterFromEvent tb e = [] \<or>
     (etype e = Keyup \<and> ignoreNextKeyup st = Some (characterFromEvent tb e))"
  then show "handleKeyEvent tb st e =
       (start_dispatch (if characterFromEvent tb e = [] then st
                        else st\<lparr>ignoreNextKeyup := None\<rparr>), None)"
    by (auto simp: handleKeyEvent_def Let_def)
next
  assume a: "etype e = Keyup \<and> which e = 96 \<and> ignoreNextKeyup st \<noteq> Some ''0''"
  then show c: "characterFromEvent (initial_tables m) e = ''0''"
    by (simp add: character_numpad0)
  show "handleKeyEvent (initial_tables m) st e =
       handleKey (initial_tables m) st ''0'' (eventModifiers e) e"
    using a c by (simp add: handleKeyEvent_def Let_def)
next
  assume "\<not> stopCallback new_engine el"
  then show "ran (fst (handleKeyEvent (initial_tables m)
                (bind (initial_tables m) [''0''] i rf (Some Keyup) new_engine)
                \<lparr>etype = Keyup, which = 96, shiftKey = False, altKey = False,
                 ctrlKey = False, metaKey = False, target = el\<rparr>)) = [i]"
    unfolding bind_0_keyup
    by (simp add: handleKeyEvent_def character_numpad0 handleKey_def
        getMatches_def isCandidate_def isDeleted_def modifiersMatch_def eventModifiers_def
        isModifier_def maxLevelOf_def start_dispatch_def fireEntry_def fireUser_def
        stopCallback_def new_engine_def Let_def)
qed

theorem handleKeyEvent_drop_witness:
  "etype (keyEvent Keyup 65) = Keyup \<and>
   ignoreNextKeyup (new_engine\<lparr>ignoreNextKeyup := Some ''a''\<rparr>) =
     Some (characterFromEvent (initial_tables False) (keyEvent Keyup 65)) \<and>
   handleKeyEvent (initial_tables False) (new_engine\<lparr>ignoreNextKeyup := Some ''a''\<rparr>)
       (keyEvent Keyup 65) =
     (start_dispatch new_engine, None) \<and>
   \<not> stopCallback new_engine plainElement \<and>
   ran (fst (handleKeyEvent (initial_tables False)
              (bind (initial_tables False) [''0''] 7 False (Some Keyup) new_engine)
              (keyEvent Keyup 96))) = [7]"
proof -
  have c: "characterFromEvent (initial_tables False) (keyEvent Keyup 65) = ''a''"
    by code_simp
  have s: "\<not> stopCallback new_engine plainElement" by code_simp
  have n: "new_engine\<lparr>ignoreNextKeyup := Some ''a'', ignoreNextKeyup := None\<rparr> = new_engine"
    by (simp add: new_engine_def)
  show ?thesis
    using c s n
      handleKeyEvent_drop [of "initial_tables False" "keyEvent Keyup 65"
        "new_engine\<lparr>ignoreNextKeyup := Some ''a''\<rparr>" False plainElement 7 False]
    by (simp add: keyEvent_def)
qed

lemma sep_eq:
  "c \<notin> set x \<Longrightarrow> c \<notin> set y \<Longrightarrow> x @ c # r = y @ c # r' \<Longrightarrow> x = y \<and> r = r'"
proof (induction x arbitrary: y)
  case Nil
  then show ?case by (cases y) auto
next
  case (Cons a x)
  then show ?case by (cases y) auto
qed

lemma join_Nil_iff: "\<forall>x \<in> set xs. x \<noteq> [] \<Longrightarrow> join xs = [] \<longleftrightarrow> xs = []"
  by (induction xs rule: join.induct) auto

lemma join_comma: "CHR '','' \<in> set (join (x # y # ys))"
  by simp

lemma join_inj:
  assumes "\<forall>x \<in> set xs. x \<noteq> [] \<and> CHR '','' \<notin> set x"
    and "\<forall>y \<in> set ys. y \<noteq> [] \<and> CHR '','' \<notin> set y"
    and "join xs = join ys"
  shows "xs = ys"
  using assms
proof (induction xs arbitrary: ys rule: join.induct)
  case 1
  then show ?case using join_Nil_iff [of ys] by auto
next
  case (2 x)
  show ?case
  proof (cases ys rule: join.cases)
    case 1
    with 2 show ?thesis by simp
  next
    case (2 y)
    with "2.prems" show ?thesis by simp
  next
    case (3 y y' ys')
    with "2.prems" join_comma [of y y' ys'] show ?thesis by auto
  qed
next
  case (3 x x' xs)
  show ?case
  proof (cases ys rule: join.cases)
    case 1
    with "3.prems" show ?thesis by simp
  next
    case (2 y)
    with "3.prems" join_comma [of x x' xs] show ?thesis by auto
  next
    case (3 y y' ys')
    have e: "x @ CHR '','' # join (x' # xs) = y @ CHR '','' # join (y' # ys')"
      using "3.prems"(3) 3 by simp
    have "x = y \<and> join (x' # xs) = join (y' # ys')"
      by (rule sep_eq [OF _ _ e]) (use "3.prems" 3 in auto)
    moreover from this have "x' # xs = y' # ys'"
      using "3.IH" [of "y' # ys'"] "3.prems" 3 by auto
    ultimately show ?thesis using 3 by simp
  qed
qed

lemma modifierNames_plain: "x \<in> modifierNames \<Longrightarrow> x \<noteq> [] \<and> CHR '','' \<notin> set x"
  by (auto simp: modifierNames_def)

lemma modifiersMatch_set:
  assumes "set m1 \<subseteq> modifierNames" "set m2 \<subseteq> modifierNames" "modifiersMatch m1 m2"
  shows "set m1 = set m2"
proof -
  have "sort m1 = sort m2"
  proof (rule join_inj)
    show "\<forall>x \<in> set (sort m1). x \<noteq> [] \<and> CHR '','' \<notin> set x"
      using assms(1) modifierNames_plain by auto
    show "\<forall>y \<in> set (sort m2). y \<noteq> [] \<and> CHR '','' \<notin> set y"
      using assms(2) modifierNames_plain by auto
    show "join (sort m1) = join (sort m2)"
      using assms(3) by (simp add: modifiersMatch_def)
  qed
  then have "set (sort m1) = set (sort m2)" by simp
  then show ?thesis by simp
qed

lemma getMatches_loop_matches:
  "cb \<in> set (snd (getMatches_loop cand del cbs)) \<Longrightarrow> cand cb \<and> cb \<in> set cbs"
  by (induction cand del cbs rule: getMatches_loop.induct)
     (auto simp: split_beta split: if_splits)

lemma getMatches_loop_no_delete:
  "(\<And>cb. \<not> del cb) \<Longrightarrow> getMatches_loop cand del cbs = (cbs, filter cand cbs)"
  by (induction cand del cbs rule: getMatches_loop.induct) auto

lemma eventModifiers_subset: "set (eventModifiers e) \<subseteq> modifierNames"
  by (auto simp: eventModifiers_def modifierNames_def)

lemma wellFormed_lookup:
  "wellFormed st \<Longrightarrow> map_of (callbacks st) k = Some cbs \<Longrightarrow> cb \<in> set cbs \<Longrightarrow>
   set (modifiers cb) \<subseteq> modifierNames"
proof -
  assume wf: "wellFormed st" and l: "map_of (callbacks st) k = Some cbs" and i: "cb \<in> set cbs"
  from l have "(k, cbs) \<in> set (callbacks st)" by (rule map_of_SomeD)
  with wf have "\<forall>cb \<in> set cbs. set (modifiers cb) \<subseteq> modifierNames"
    by (fastforce simp: wellFormed_def list_all_iff)
  with i show ?thesis by blast
qed


lemma wellFormed_iff:
  "wellFormed st \<longleftrightarrow>
     (\<forall>k cbs cb. (k, cbs) \<in> set (callbacks st) \<longrightarrow> cb \<in> set cbs \<longrightarrow>
        set (modifiers cb) \<subseteq> modifierNames)"
  by (fastforce simp: wellFormed_def list_all_iff)

lemma set_assign: "set (assign k v xs) \<subseteq> insert (k, v) (set xs)"
  by (induction xs) (auto split: if_splits)

lemma assign_same: "map_of xs k = Some v \<Longrightarrow> assign k v xs = xs"
  by (induction xs) (auto split: if_splits)

lemma map_of_assign: "map_of (assign k v xs) k' = (if k' = k then Some v else map_of xs k')"
  by (induction xs) auto

lemma getMatches_loop_kept: "set (fst (getMatches_loop cand del cbs)) \<subseteq> set cbs"
  by (induction cand del cbs rule: getMatches_loop.induct) (auto simp: split_beta)

lemma getMatches_callbacks:
  "(k, cbs) \<in> set (callbacks (fst (getMatches st ch mods e sn cmb lvl))) \<Longrightarrow>
   \<exists>cbs'. (k, cbs') \<in> set (callbacks st) \<and> set cbs \<subseteq> set cbs'"
proof (cases "map_of (callbacks st) ch")
  case None
  assume "(k, cbs) \<in> set (callbacks (fst (getMatches st ch mods e sn cmb lvl)))"
  with None show ?thesis by (auto simp: getMatches_def)
next
  case (Some old)
  let ?mods = "if etype e = Keyup \<and> isModifier ch then [ch] else mods"
  let ?kept = "fst (getMatches_loop (isCandidate st ?mods e sn) (isDeleted sn cmb lvl) old)"
  assume "(k, cbs) \<in> set (callbacks (fst (getMatches st ch mods e sn cmb lvl)))"
  with Some have "(k, cbs) \<in> set (assign ch ?kept (callbacks st))"
    by (simp add: getMatches_def Let_def split_beta)
  with set_assign have "(k, cbs) = (ch, ?kept) \<or> (k, cbs) \<in> set (callbacks st)" by fastforce
  then show ?thesis
  proof
    assume "(k, cbs) = (ch, ?kept)"
    moreover have "(ch, old) \<in> set (callbacks st)" using Some by (rule map_of_SomeD)
    ultimately show ?thesis using getMatches_loop_kept by blast
  next
    assume "(k, cbs) \<in> set (callbacks st)"
    then show ?thesis by blast
  qed
qed

lemma getMatches_wellFormed:
  "wellFormed st \<Longrightarrow> wellFormed (fst (getMatches st ch mods e sn cmb lvl))"
  unfolding wellFormed_iff by (blast dest: getMatches_callbacks)

lemma getMatches_handle:
  "fst (getMatches st ch mods e None None lvl) = st"
proof (cases "map_of (callbacks st) ch")
  case None
  then show ?thesis by (simp add: getMatches_def)
next
  case (Some old)
  have "\<And>cb. \<not> isDeleted None None lvl cb" by (simp add: isDeleted_def)
  then show ?thesis
    using Some by (simp add: getMatches_def Let_def getMatches_loop_no_delete assign_same)
qed

lemma fireCallback_callbacks: "callbacks (fst (fireCallback tb st cb e)) = callbacks st"
  by (cases cb)
     (auto simp: increaseSequence_def callbackAndReset_def fireUser_def split_beta
        split: prod.splits option.splits)

lemma fireEntry_callbacks: "callbacks (eng (fst (fireEntry tb e cb d))) = callbacks (eng d)"
  by (simp add: fireEntry_def split_beta fireCallback_callbacks)

lemma fireLoop_Cons_cases:
  obtains (skip) "fireLoop tb e m (cb # cbs) d = fireLoop tb e m cbs d"
  | (stop) d0 d' ex where "eng d0 = eng d" "ran d0 = ran d" "fired d0 = fired d"
      "fireEntry tb e cb d0 = (d', Some ex)" "fireLoop tb e m (cb # cbs) d = (d', Some ex)"
  | (go) d0 d' where "eng d0 = eng d" "ran d0 = ran d" "fired d0 = fired d"
      "fireEntry tb e cb d0 = (d', None)"
      "fireLoop tb e m (cb # cbs) d = fireLoop tb e m cbs d'"
proof (cases "seq cb \<noteq> None")
  case True
  let ?d0 = "d\<lparr>processedSequenceCallback := True, doNotReset := doNotReset d @ [the (seq cb)]\<rparr>"
  show ?thesis
  proof (cases "level cb \<noteq> m")
    case True
    with \<open>seq cb \<noteq> None\<close> show ?thesis by (intro skip) simp
  next
    case False
    obtain d' x where f: "fireEntry tb e cb ?d0 = (d', x)" by (cases "fireEntry tb e cb ?d0")
    show ?thesis
    proof (cases x)
      case None
      with f False True show ?thesis by (intro go [of ?d0 d']) simp_all
    next
      case (Some ex)
      with f False True show ?thesis by (intro stop [of ?d0 d' ex]) simp_all
    qed
  qed
next
  case False
  show ?thesis
  proof (cases "processedSequenceCallback d")
    case True
    with False show ?thesis by (intro skip) simp
  next
    case np: False
    obtain d' x where f: "fireEntry tb e cb d = (d', x)" by (cases "fireEntry tb e cb d")
    show ?thesis
    proof (cases x)
      case None
      with f False np show ?thesis by (intro go [of d d']) simp_all
    next
      case (Some ex)
      with f False np show ?thesis by (intro stop [of d d' ex]) simp_all
    qed
  qed
qed

lemma fireLoop_callbacks:
  "callbacks (eng (fst (fireLoop tb e m cbs d))) = callbacks (eng d)"
proof (induction cbs arbitrary: d)
  case Nil
  then show ?case by simp
next
  case (Cons cb cbs)
  show ?case
  proof (cases rule: fireLoop_Cons_cases [of tb e m cb cbs d])
    case skip
    then show ?thesis by (simp add: Cons.IH)
  next
    case (stop d0 d' ex)
    then show ?thesis using fireEntry_callbacks [of tb e cb d0] by simp
  next
    case (go d0 d')
    then show ?thesis using fireEntry_callbacks [of tb e cb d0] Cons.IH [of d'] by simp
  qed
qed

lemma resetSequences_callbacks: "callbacks (resetSequences dnr st) = callbacks st"
  by (simp add: resetSequences_def Let_def)

lemma handleKey_callbacks: "callbacks (eng (fst (handleKey tb st ch mods e))) = callbacks st"
proof -
  have g: "getMatches st ch mods e None None 0 = (st, snd (getMatches st ch mods e None None 0))"
    using getMatches_handle [of st ch mods e 0] by (simp add: prod_eq_iff)
  let ?cbs = "snd (getMatches st ch mods e None None 0)"
  obtain d x where f: "fireLoop tb e (maxLevelOf ?cbs) ?cbs (start_dispatch st) = (d, x)"
    by (cases "fireLoop tb e (maxLevelOf ?cbs) ?cbs (start_dispatch st)")
  have "callbacks (eng d) = callbacks st"
    using fireLoop_callbacks [of tb e "maxLevelOf ?cbs" ?cbs "start_dispatch st"] f
    by (simp add: start_dispatch_def)
  then show ?thesis
    unfolding handleKey_def
    by (subst g) (simp add: f Let_def resetSequences_callbacks split: option.splits)
qed

lemma handleKeyEvent_callbacks: "callbacks (eng (fst (handleKeyEvent tb st e))) = callbacks st"
  by (simp add: handleKeyEvent_def Let_def start_dispatch_def handleKey_callbacks)

lemma handleKeyEvent_wellFormed:
  "wellFormed st \<Longrightarrow> wellFormed (eng (fst (handleKeyEvent tb st e)))"
  by (simp add: wellFormed_def handleKeyEvent_callbacks)

lemma wellFormed_new: "wellFormed new_engine"
  by (simp add: wellFormed_def new_engine_def)

lemma wellFormed_reset: "wellFormed (reset st)"
  by (simp add: wellFormed_def reset_def)

lemma wellFormed_pause: "wellFormed (pause st) = wellFormed st"
  by (simp add: wellFormed_def pause_def)

lemma wellFormed_unpause: "wellFormed (unpause st) = wellFormed st"
  by (simp add: wellFormed_def unpause_def)

lemma bindToken_wellFormed:
  assumes "wellFormed st"
  shows "wellFormed (bindToken tb c cb act sn lvl st)"
proof -
  let ?info = "getKeyInfo tb c act"
  let ?st1 = "st\<lparr>directMap := assign (directKey c act) cb (directMap st)\<rparr>"
  let ?st2 = "case map_of (callbacks ?st1) (key ?info) of
                None \<Rightarrow> ?st1\<lparr>callbacks := assign (key ?info) [] (callbacks ?st1)\<rparr>
              | Some _ \<Rightarrow> ?st1"
  let ?st3 = "fst (getMatches ?st2 (key ?info) (info_modifiers ?info)
                     (bareEvent (info_action ?info)) sn (Some c) lvl)"
  let ?entry = "\<lparr>callback = cb, modifiers = info_modifiers ?info, action = info_action ?info,
                 seq = sn, level = lvl, combo = c\<rparr>"
  let ?old = "case map_of (callbacks ?st3) (key ?info) of Some cbs \<Rightarrow> cbs | None \<Rightarrow> []"
  have 1: "wellFormed ?st1" using assms by (simp add: wellFormed_def)
  have 2: "wellFormed ?st2"
  proof (cases "map_of (callbacks ?st1) (key ?info)")
    case None
    then show ?thesis using 1 set_assign [of "key ?info" "[]" "callbacks st"]
      unfolding wellFormed_iff by fastforce
  next
    case (Some a)
    then show ?thesis using 1 by simp
  qed
  have 3: "wellFormed ?st3" using 2 by (rule getMatches_wellFormed)
  have old: "\<forall>x \<in> set ?old. set (modifiers x) \<subseteq> modifierNames"
  proof (cases "map_of (callbacks ?st3) (key ?info)")
    case None
    then show ?thesis by simp
  next
    case (Some cbs)
    then show ?thesis using wellFormed_lookup [OF 3 Some] by simp
  qed
  have new: "\<forall>x \<in> set (if sn \<noteq> None then ?entry # ?old else ?old @ [?entry]).
               set (modifiers x) \<subseteq> modifierNames"
    using old modifiers_getKeyInfo_subset [of tb c act] by auto
  have eq: "bindToken tb c cb act sn lvl st =
      ?st3\<lparr>callbacks := assign (key ?info)
               (if sn \<noteq> None then ?entry # ?old else ?old @ [?entry]) (callbacks ?st3)\<rparr>"
    by (simp add: bindToken_def Let_def split_beta)
  show ?thesis
    unfolding eq wellFormed_iff
  proof (intro allI impI)
    fix k cbs x
    assume m: "(k, cbs) \<in> set (callbacks (?st3\<lparr>callbacks := assign (key ?info)
               (if sn \<noteq> None then ?entry # ?old else ?old @ [?entry]) (callbacks ?st3)\<rparr>))"
      and x: "x \<in> set cbs"
    from m set_assign have "(k, cbs) = (key ?info, if sn \<noteq> None then ?entry # ?old else ?old @ [?entry])
        \<or> (k, cbs) \<in> set (callbacks ?st3)"
      by fastforce
    then show "set (modifiers x) \<subseteq> modifierNames"
    proof
      assume "(k, cbs) = (key ?info, if sn \<noteq> None then ?entry # ?old else ?old @ [?entry])"
      with new x show ?thesis by blast
    next
      assume "(k, cbs) \<in> set (callbacks ?st3)"
      with 3 x show ?thesis unfolding wellFormed_iff by blast
    qed
  qed
qed

lemma fold_invariant:
  "(\<And>x s. P s \<Longrightarrow> P (f x s)) \<Longrightarrow> P s \<Longrightarrow> P (fold f xs s)"
  by (induction xs arbitrary: s) auto

lemma bindSequence_wellFormed:
  "wellFormed st \<Longrightarrow> wellFormed (bindSequence tb cmb keys i rf act st)"
  unfolding bindSequence_def
  by (rule fold_invariant) (simp_all add: bindToken_wellFormed Let_def, simp add: wellFormed_def)

lemma bindSingle_wellFormed:
  "wellFormed st \<Longrightarrow> wellFormed (bindSingle tb c i rf act st)"
  by (auto simp: bindSingle_def Let_def intro!: bindSequence_wellFormed bindToken_wellFormed)
     (simp add: wellFormed_def)

lemma bind_wellFormed: "wellFormed st \<Longrightarrow> wellFormed (bind tb keys i rf act st)"
  unfolding bind_def by (rule fold_invariant) (simp_all add: bindSingle_wellFormed)

text \<open>
  C5: in an engine with a well-formed registry (every engine built with \<open>bind\<close> is
  one, by the lemmas above), a binding that \<open>#getMatches\<close> returns for a dispatched
  event has the action of the event, and either the event is a key-press with neither
  ctrl nor meta held, or the set of its modifiers equals the set of the modifiers of
  the event. The modifiers of the event are those of its flags, except that for the
  key-up of a modifier key they are that key alone. For a key-press with neither ctrl
  nor meta held the modifiers are not compared at all: every plain binding of the
  character for \<open>keypress\<close> matches, whatever the other flags of the event.
\<close>

theorem getMatches_action_and_modifiers:
  assumes wf: "wellFormed st"
  shows "(cb \<in> set (snd (getMatches st character (eventModifiers e) e None None 0)) \<longrightarrow>
            action cb = etype e \<and>
            ((etype e = Keypress \<and> \<not> ctrlKey e \<and> \<not> metaKey e) \<or>
             set (modifiers cb) =
               set (if etype e = Keyup \<and> isModifier character then [character]
                    else eventModifiers e))) \<and>
         (etype e = Keypress \<and> \<not> ctrlKey e \<and> \<not> metaKey e \<and>
          map_of (callbacks st) character = Some cbs \<and> cb \<in> set cbs \<and>
          action cb = Keypress \<and> seq cb = None \<longrightarrow>
            cb \<in> set (snd (getMatches st character (eventModifiers e) e None None 0)))"
proof (rule conjI; rule impI)
  let ?mods = "if etype e = Keyup \<and> isModifier character then [character] else eventModifiers e"
  assume m: "cb \<in> set (snd (getMatches st character (eventModifiers e) e None None 0))"
  then obtain cbs' where cbs: "map_of (callbacks st) character = Some cbs'"
    by (auto simp: getMatches_def split: option.splits)
  with m have "cb \<in> set (snd (getMatches_loop (isCandidate st ?mods e None)
                  (isDeleted None None 0) cbs'))"
    by (simp add: getMatches_def Let_def split_beta)
  then have c: "isCandidate st ?mods e None cb" and i: "cb \<in> set cbs'"
    using getMatches_loop_matches by blast+
  have s1: "set (modifiers cb) \<subseteq> modifierNames"
    by (rule wellFormed_lookup [OF wf cbs i])
  have s2: "set ?mods \<subseteq> modifierNames"
    using eventModifiers_subset by (auto simp: isModifier_def modifierNames_def)
  from c have a: "etype e = action cb"
    and d: "(etype e = Keypress \<and> \<not> metaKey e \<and> \<not> ctrlKey e) \<or>
            modifiersMatch ?mods (modifiers cb)"
    by (auto simp: isCandidate_def)
  from d show "action cb = etype e \<and>
            ((etype e = Keypress \<and> \<not> ctrlKey e \<and> \<not> metaKey e) \<or>
             set (modifiers cb) = set ?mods)"
  proof
    assume "etype e = Keypress \<and> \<not> metaKey e \<and> \<not> ctrlKey e"
    with a show ?thesis by simp
  next
    assume "modifiersMatch ?mods (modifiers cb)"
    from modifiersMatch_set [OF s2 s1 this] a show ?thesis by simp
  qed
next
  assume h: "etype e = Keypress \<and> \<not> ctrlKey e \<and> \<not> metaKey e \<and>
          map_of (callbacks st) character = Some cbs \<and> cb \<in> set cbs \<and>
          action cb = Keypress \<and> seq cb = None"
  have "\<And>b. \<not> isDeleted None None 0 b" by (simp add: isDeleted_def)
  then have "snd (getMatches st character (eventModifiers e) e None None 0) =
             filter (isCandidate st (eventModifiers e) e None) cbs"
    using h by (simp add: getMatches_def Let_def getMatches_loop_no_delete)
  moreover have "isCandidate st (eventModifiers e) e None cb"
    using h by (simp add: isCandidate_def)
  ultimately show "cb \<in> set (snd (getMatches st character (eventModifiers e) e None None 0))"
    using h by simp
qed

theorem getMatches_action_and_modifiers_witness:
  "wellFormed (bind (initial_tables False) [''ctrl+s''] 1 False None new_engine) \<and>
   \<lparr>callback = User 1 False, modifiers = [''ctrl''], action = Keydown, seq = None,
     level = 0, combo = ''ctrl+s''\<rparr>
     \<in> set (snd (getMatches (bind (initial_tables False) [''ctrl+s''] 1 False None new_engine)
                 ''s'' (eventModifiers ((keyEvent Keydown 83)\<lparr>ctrlKey := True\<rparr>))
                 ((keyEvent Keydown 83)\<lparr>ctrlKey := True\<rparr>) None None 0)) \<and>
   etype ((keyEvent Keydown 83)\<lparr>ctrlKey := True\<rparr>) = Keydown \<and>
   set (eventModifiers ((keyEvent Keydown 83)\<lparr>ctrlKey := True\<rparr>)) = {''ctrl''} \<and>
   \<lparr>callback = User 2 False, modifiers = [], action = Keypress, seq = None,
     level = 0, combo = ''s''\<rparr>
     \<in> set (snd (getMatches (bind (initial_tables False) [''s''] 2 False None new_engine)
                 ''s'' (eventModifiers ((keyEvent Keypress 115)\<lparr>altKey := True\<rparr>))
                 ((keyEvent Keypress 115)\<lparr>altKey := True\<rparr>) None None 0))"
proof -
  let ?st = "bind (initial_tables False) [''ctrl+s''] 1 False None new_engine"
  let ?e = "(keyEvent Keydown 83)\<lparr>ctrlKey := True\<rparr>"
  let ?cb = "\<lparr>callback = User 1 False, modifiers = [''ctrl''], action = Keydown, seq = None,
     level = 0, combo = ''ctrl+s''\<rparr>"
  let ?st2 = "bind (initial_tables False) [''s''] 2 False None new_engine"
  let ?e2 = "(keyEvent Keypress 115)\<lparr>altKey := True\<rparr>"
  let ?cb2 = "\<lparr>callback = User 2 False, modifiers = [], action = Keypress, seq = None,
     level = 0, combo = ''s''\<rparr>"
  have wf: "wellFormed ?st" by (rule bind_wellFormed [OF wellFormed_new])
  have wf2: "wellFormed ?st2" by (rule bind_wellFormed [OF wellFormed_new])
  have m: "?cb \<in> set (snd (getMatches ?st ''s'' (eventModifiers ?e) ?e None None 0))"
    by code_simp
  have l: "map_of (callbacks ?st2) ''s'' = Some [?cb2]" by code_simp
  show ?thesis
    using wf m l
      getMatches_action_and_modifiers [OF wf, of ?cb "''s''" ?e]
      getMatches_action_and_modifiers [OF wf2, of ?cb2 "''s''" ?e2 "[?cb2]"]
    by (simp add: keyEvent_def isModifier_def)
qed

section \<open>Pausing and resuming\<close>

text \<open>
  What a dispatch does to a paused engine: nothing is run, and the bookkeeping of
  \<open>handleKey\<close> goes on as if the selected entries had been fired.
\<close>

lemma fireLoop_paused_state:
  "\<not> mouseTrapEnabled (eng d) \<Longrightarrow>
   eng (fst (fireLoop tb e m cbs d)) = eng d \<and>
   processedSequenceCallback (fst (fireLoop tb e m cbs d)) =
     (processedSequenceCallback d \<or> sequenceMatches m cbs \<noteq> []) \<and>
   doNotReset (fst (fireLoop tb e m cbs d)) =
     doNotReset d @ map (\<lambda>cb. the (seq cb)) (sequenceMatches m cbs)"
  by (induction cbs arbitrary: d) (auto simp: fireEntry_paused sequenceMatches_def)

lemma handleKey_paused_state:
  assumes p: "\<not> mouseTrapEnabled st"
  shows "eng (fst (handleKey tb st ch mods e)) =
     (let cbs = snd (getMatches st ch mods e None None 0);
          sm = sequenceMatches (maxLevelOf cbs) cbs;
          st3 = (if nextExpectedAction st = Some (etype e) \<and> \<not> isModifier ch \<and>
                    \<not> (etype e = Keypress \<and> ignoreNextKeypress st)
                 then resetSequences (map (\<lambda>cb. the (seq cb)) sm) st else st)
      in st3\<lparr>ignoreNextKeypress := (sm \<noteq> [] \<and> etype e = Keydown)\<rparr>)"
proof -
  obtain cbs where g: "getMatches st ch mods e None None 0 = (st, cbs)"
    using getMatches_handle [of st ch mods e 0]
    by (cases "getMatches st ch mods e None None 0") simp
  obtain d x where f: "fireLoop tb e (maxLevelOf cbs) cbs (start_dispatch st) = (d, x)"
    by (cases "fireLoop tb e (maxLevelOf cbs) cbs (start_dispatch st)")
  have pd: "\<not> mouseTrapEnabled (eng (start_dispatch st))"
    using p by (simp add: start_dispatch_def)
  have x: "x = None"
    using fireLoop_paused [OF pd, of tb e "maxLevelOf cbs" cbs] f by simp
  have d: "eng d = st"
    "processedSequenceCallback d = (sequenceMatches (maxLevelOf cbs) cbs \<noteq> [])"
    "doNotReset d = map (\<lambda>cb. the (seq cb)) (sequenceMatches (maxLevelOf cbs) cbs)"
    using fireLoop_paused_state [OF pd, of tb e "maxLevelOf cbs" cbs] f
    by (simp_all add: start_dispatch_def)
  show ?thesis
    by (auto simp: handleKey_def g f x d Let_def)
qed

lemma handleKeyEvent_paused_state:
  assumes p: "\<not> mouseTrapEnabled st"
  shows "eng (fst (handleKeyEvent tb st e)) =
     (let ch = characterFromEvent tb e
      in if etype e = Keyup \<and> ignoreNextKeyup st = Some ch then st\<lparr>ignoreNextKeyup := None\<rparr>
         else
          (let cbs = snd (getMatches st ch (eventModifiers e) e None None 0);
               sm = sequenceMatches (maxLevelOf cbs) cbs;
               st3 = (if nextExpectedAction st = Some (etype e) \<and> \<not> isModifier ch \<and>
                         \<not> (etype e = Keypress \<and> ignoreNextKeypress st)
                      then resetSequences (map (\<lambda>cb. the (seq cb)) sm) st else st)
           in st3\<lparr>ignoreNextKeypress := (sm \<noteq> [] \<and> etype e = Keydown)\<rparr>))"
proof -
  define ch where "ch = characterFromEvent tb e"
  have n: "ch \<noteq> []" unfolding ch_def by (rule characterFromEvent_nonempty)
  show ?thesis
  proof (cases "etype e = Keyup \<and> ignoreNextKeyup st = Some ch")
    case True
    then show ?thesis
      using n by (auto simp: handleKeyEvent_def Let_def start_dispatch_def ch_def [symmetric])
  next
    case False
    then have "handleKeyEvent tb st e = handleKey tb st ch (eventModifiers e) e"
      using n by (auto simp: handleKeyEvent_def Let_def ch_def [symmetric])
    then show ?thesis
      using False handleKey_paused_state [OF p, of tb ch "eventModifiers e" e]
      by (auto simp: Let_def ch_def [symmetric])
  qed
qed

lemma handleKeyEvent_directMap:
  "directMap (eng (fst (handleKeyEvent tb (pause st) e))) = directMap st"
  using handleKeyEvent_paused_state [of "pause st" tb e]
  by (auto simp: pause_def Let_def resetSequences_def)


text \<open>
  C8, as the claim states it, fails in its last part. The sequence \<open>g i\<close> is bound
  and \<open>g\<close> is pressed, so that a press of \<open>i\<close> runs the function. The engine is
  paused, \<open>x\<close> is pressed, and the engine is resumed: the press of \<open>x\<close> ran nothing
  but it reset the level of the sequence, and a press of \<open>i\<close> now runs nothing.
\<close>

theorem pause_unpause_counterexample:
  "(let tb = initial_tables False;
        st0 = bind tb [''g i''] 1 False None new_engine;
        st1 = eng (fst (handleKeyEvent tb st0 (keyEvent Keypress 103)));
        st2 = unpause (eng (fst (handleKeyEvent tb (pause st1) (keyEvent Keypress 120))))
    in mouseTrapEnabled st1 \<and>
       ran (fst (handleKeyEvent tb st1 (keyEvent Keypress 105))) = [1] \<and>
       ran (fst (handleKeyEvent tb (pause st1) (keyEvent Keypress 120))) = [] \<and>
       ran (fst (handleKeyEvent tb st2 (keyEvent Keypress 105))) = [])"
  by code_simp


text \<open>
  C8, amended: the default suppression predicate is an ordered policy. While the
  engine is paused every element is suppressed; otherwise an element whose class list
  (the class name split at spaces) holds \<open>mousetrap\<close> is not suppressed; otherwise the
  element is suppressed exactly when its \<open>contentEditable\<close> is \<open>true\<close>. After
  \<open>pause\<close> a dispatch runs no user function and raises nothing. \<open>pause\<close> and
  \<open>unpause\<close> change the enabled flag only, so \<open>unpause\<close> right after \<open>pause\<close> gives
  back an enabled engine unchanged. A dispatch to a paused engine leaves the bindings
  and the trigger index as they are but still does the bookkeeping of the dispatcher:
  it clears a pending key-up suppression that the event consumes, applies the reset
  rule to the sequence levels (the sequences matched at the largest level exempt), and
  sets the flag for the next key-press. After \<open>unpause\<close> the engine goes on from that
  state.
\<close>

theorem stopCallback_policy:
  "(\<not> mouseTrapEnabled st \<longrightarrow> stopCallback st el) \<and>
   (mouseTrapEnabled st \<and> ''mousetrap'' \<in> set (split (CHR '' '') (className el)) \<longrightarrow>
      \<not> stopCallback st el) \<and>
   (mouseTrapEnabled st \<and> ''mousetrap'' \<notin> set (split (CHR '' '') (className el)) \<longrightarrow>
      stopCallback st el = (contentEditable el = Some ''true'')) \<and>
   ran (fst (handleKeyEvent tb (pause st) e)) = [] \<and>
   snd (handleKeyEvent tb (pause st) e) = None \<and>
   unpause (pause st) = st\<lparr>mouseTrapEnabled := True\<rparr> \<and>
   (mouseTrapEnabled st \<longrightarrow> unpause (pause st) = st) \<and>
   callbacks (eng (fst (handleKeyEvent tb (pause st) e))) = callbacks st \<and>
   directMap (eng (fst (handleKeyEvent tb (pause st) e))) = directMap st \<and>
   eng (fst (handleKeyEvent tb (pause st) e)) =
     (let ch = characterFromEvent tb e
      in if etype e = Keyup \<and> ignoreNextKeyup (pause st) = Some ch
         then (pause st)\<lparr>ignoreNextKeyup := None\<rparr>
         else
          (let cbs = snd (getMatches (pause st) ch (eventModifiers e) e None None 0);
               sm = sequenceMatches (maxLevelOf cbs) cbs;
               st3 = (if nextExpectedAction (pause st) = Some (etype e) \<and> \<not> isModifier ch \<and>
                         \<not> (etype e = Keypress \<and> ignoreNextKeypress (pause st))
                      then resetSequences (map (\<lambda>cb. the (seq cb)) sm) (pause st)
                      else pause st)
           in st3\<lparr>ignoreNextKeypress := (sm \<noteq> [] \<and> etype e = Keydown)\<rparr>))"
proof -
  have p: "\<not> mouseTrapEnabled (pause st)" by (simp add: pause_def)
  from handleKeyEvent_paused [OF p]
  have 1: "ran (fst (handleKeyEvent tb (pause st) e)) = []"
    and 2: "snd (handleKeyEvent tb (pause st) e) = None"
    by simp_all
  have 3: "unpause (pause st) = st\<lparr>mouseTrapEnabled := True\<rparr>"
    by (simp add: pause_def unpause_def)
  have 4: "mouseTrapEnabled st \<longrightarrow> unpause (pause st) = st"
    by (simp add: pause_def unpause_def)
  have 5: "callbacks (eng (fst (handleKeyEvent tb (pause st) e))) = callbacks st"
    by (simp add: handleKeyEvent_callbacks pause_def)
  have 6: "directMap (eng (fst (handleKeyEvent tb (pause st) e))) = directMap st"
    by (rule handleKeyEvent_directMap)
  have 7: "(\<not> mouseTrapEnabled st \<longrightarrow> stopCallback st el) \<and>
   (mouseTrapEnabled st \<and> ''mousetrap'' \<in> set (split (CHR '' '') (className el)) \<longrightarrow>
      \<not> stopCallback st el) \<and>
   (mouseTrapEnabled st \<and> ''mousetrap'' \<notin> set (split (CHR '' '') (className el)) \<longrightarrow>
      stopCallback st el = (contentEditable el = Some ''true''))"
    using marker_class [of "className el"] by (simp add: stopCallback_def)
  note 8 = handleKeyEvent_paused_state [OF p, of tb e]
  from 7 1 2 3 4 5 6 8 show ?thesis by (intro conjI) (elim conjE, assumption)+
qed


theorem stopCallback_policy_witness:
  "mouseTrapEnabled new_engine \<and>
   ''mousetrap'' \<in> set (split (CHR '' '') ''note mousetrap'') \<and>
   \<not> stopCallback new_engine \<lparr>className = ''note mousetrap'', contentEditable = Some ''true''\<rparr> \<and>
   ''mousetrap'' \<notin> set (split (CHR '' '') ''note'') \<and>
   stopCallback new_engine \<lparr>className = ''note'', contentEditable = Some ''true''\<rparr> \<and>
   \<not> mouseTrapEnabled (pause new_engine) \<and>
   stopCallback (pause new_engine) \<lparr>className = ''note mousetrap'', contentEditable = None\<rparr> \<and>
   unpause (pause new_engine) = new_engine \<and>
   ran (fst (handleKeyEvent (initial_tables False) (pause new_engine) (keyEvent Keypress 120))) = []"
proof -
  have a: "mouseTrapEnabled new_engine" by (simp add: new_engine_def)
  have b: "''mousetrap'' \<in> set (split (CHR '' '') ''note mousetrap'')" by code_simp
  have c: "''mousetrap'' \<notin> set (split (CHR '' '') ''note'')" by code_simp
  have d: "\<not> mouseTrapEnabled (pause new_engine)" by (simp add: pause_def)
  note t1 = stopCallback_policy [where st = new_engine and tb = "initial_tables False"
      and e = "keyEvent Keypress 120"
      and el = "\<lparr>className = ''note mousetrap'', contentEditable = Some ''true''\<rparr>"]
  note t2 = stopCallback_policy [where st = new_engine and tb = "initial_tables False"
      and e = "keyEvent Keypress 120"
      and el = "\<lparr>className = ''note'', contentEditable = Some ''true''\<rparr>"]
  note t3 = stopCallback_policy [where st = "pause new_engine" and tb = "initial_tables False"
      and e = "keyEvent Keypress 120"
      and el = "\<lparr>className = ''note mousetrap'', contentEditable = None\<rparr>"]
  have e1: "\<not> stopCallback new_engine \<lparr>className = ''note mousetrap'', contentEditable = Some ''true''\<rparr>"
    using t1 a b by (elim conjE) simp
  have e2: "stopCallback new_engine \<lparr>className = ''note'', contentEditable = Some ''true''\<rparr>"
    using t2 a c by (elim conjE) simp
  have e3: "stopCallback (pause new_engine) \<lparr>className = ''note mousetrap'', contentEditable = None\<rparr>"
    using t3 d by (elim conjE) simp
  have e4: "unpause (pause new_engine) = new_engine"
    using t1 a by (elim conjE) simp
  have e5: "ran (fst (handleKeyEvent (initial_tables False) (pause new_engine) (keyEvent Keypress 120))) = []"
    using t1 by (elim conjE)
  from a b e1 c e2 d e3 e4 e5 show ?thesis by (intro conjI)
qed

section \<open>The tie-break of the dispatcher\<close>

lemma seqFirst_plain: "list_all (\<lambda>c. seq c = None) cbs \<Longrightarrow> seqFirst cbs"
  by (induction cbs) auto

lemma seqFirst_filter: "seqFirst cbs \<Longrightarrow> seqFirst (filter P cbs)"
  by (induction cbs) (auto simp: list_all_iff intro: seqFirst_plain)

lemma seqFirst_push: "seqFirst cbs \<Longrightarrow> seq cb = None \<Longrightarrow> seqFirst (cbs @ [cb])"
  by (induction cbs) auto

lemma getMatches_loop_seqFirst:
  "seqFirst cbs \<Longrightarrow> seqFirst (fst (getMatches_loop cand del cbs))"
proof (induction cand del cbs rule: getMatches_loop.induct)
  case (1 cand del)
  then show ?case by simp
next
  case (2 cand del cb)
  then show ?case by simp
next
  case (3 cand del cb nxt rest)
  have sub1: "set (fst (getMatches_loop cand del rest)) \<subseteq> set rest"
    and sub2: "set (fst (getMatches_loop cand del (nxt # rest))) \<subseteq> set (nxt # rest)"
    by (rule getMatches_loop_kept)+
  show ?case
  proof (cases "seq cb \<noteq> None")
    case True
    with "3.prems" have sf: "seqFirst (nxt # rest)" by simp
    show ?thesis
    proof (cases "cand cb \<and> del cb")
      case True
      then have k: "fst (getMatches_loop cand del (cb # nxt # rest)) =
                    nxt # fst (getMatches_loop cand del rest)"
        by (simp add: split_beta)
      show ?thesis
      proof (cases "seq nxt \<noteq> None")
        case True
        with sf have "seqFirst rest" by simp
        with "3.IH"(1) \<open>cand cb \<and> del cb\<close> True show ?thesis unfolding k by simp
      next
        case False
        with sf have "list_all (\<lambda>c. seq c = None) rest" by simp
        with sub1 have "list_all (\<lambda>c. seq c = None) (fst (getMatches_loop cand del rest))"
          by (auto simp: list_all_iff)
        with False show ?thesis unfolding k by simp
      qed
    next
      case False
      then have k: "fst (getMatches_loop cand del (cb # nxt # rest)) =
                    cb # fst (getMatches_loop cand del (nxt # rest))"
        by (auto simp: split_beta)
      have "seqFirst (fst (getMatches_loop cand del (nxt # rest)))"
        using False "3.IH"(2,3) sf by (cases "cand cb") auto
      with True show ?thesis unfolding k by simp
    qed
  next
    case False
    with "3.prems" have pl: "list_all (\<lambda>c. seq c = None) (nxt # rest)" by simp
    have "list_all (\<lambda>c. seq c = None) (fst (getMatches_loop cand del (cb # nxt # rest)))"
      using pl False sub1 sub2 by (auto simp: list_all_iff split_beta)
    then show ?thesis by (rule seqFirst_plain)
  qed
qed

lemma sequencesFirst_iff:
  "sequencesFirst st \<longleftrightarrow> (\<forall>k cbs. (k, cbs) \<in> set (callbacks st) \<longrightarrow> seqFirst cbs)"
  by (fastforce simp: sequencesFirst_def list_all_iff)

lemma getMatches_callbacks_kept:
  assumes "(k, cbs) \<in> set (callbacks (fst (getMatches st ch mods e sn cmb lvl)))"
  shows "(k, cbs) \<in> set (callbacks st) \<or>
         (\<exists>old cand del. (k, old) \<in> set (callbacks st) \<and>
            cbs = fst (getMatches_loop cand del old))"
proof (cases "map_of (callbacks st) ch")
  case None
  with assms show ?thesis by (auto simp: getMatches_def)
next
  case (Some old)
  let ?mods = "if etype e = Keyup \<and> isModifier ch then [ch] else mods"
  let ?kept = "fst (getMatches_loop (isCandidate st ?mods e sn) (isDeleted sn cmb lvl) old)"
  from assms Some have "(k, cbs) \<in> set (assign ch ?kept (callbacks st))"
    by (simp add: getMatches_def Let_def split_beta)
  with set_assign have "(k, cbs) = (ch, ?kept) \<or> (k, cbs) \<in> set (callbacks st)" by fastforce
  moreover have "(ch, old) \<in> set (callbacks st)" using Some by (rule map_of_SomeD)
  ultimately show ?thesis by blast
qed

lemma getMatches_sequencesFirst:
  "sequencesFirst st \<Longrightarrow> sequencesFirst (fst (getMatches st ch mods e sn cmb lvl))"
  unfolding sequencesFirst_iff
  by (blast dest: getMatches_callbacks_kept intro: getMatches_loop_seqFirst)

lemma sequencesFirst_lookup:
  "sequencesFirst st \<Longrightarrow> map_of (callbacks st) k = Some cbs \<Longrightarrow> seqFirst cbs"
  unfolding sequencesFirst_iff by (blast dest: map_of_SomeD)

lemma bindToken_sequencesFirst:
  assumes "sequencesFirst st"
  shows "sequencesFirst (bindToken tb c cb act sn lvl st)"
proof -
  let ?info = "getKeyInfo tb c act"
  let ?st1 = "st\<lparr>directMap := assign (directKey c act) cb (directMap st)\<rparr>"
  let ?st2 = "case map_of (callbacks ?st1) (key ?info) of
                None \<Rightarrow> ?st1\<lparr>callbacks := assign (key ?info) [] (callbacks ?st1)\<rparr>
              | Some _ \<Rightarrow> ?st1"
  let ?st3 = "fst (getMatches ?st2 (key ?info) (info_modifiers ?info)
                     (bareEvent (info_action ?info)) sn (Some c) lvl)"
  let ?entry = "\<lparr>callback = cb, modifiers = info_modifiers ?info, action = info_action ?info,
                 seq = sn, level = lvl, combo = c\<rparr>"
  let ?old = "case map_of (callbacks ?st3) (key ?info) of Some cbs \<Rightarrow> cbs | None \<Rightarrow> []"
  let ?new = "if sn \<noteq> None then ?entry # ?old else ?old @ [?entry]"
  have 1: "sequencesFirst ?st1" using assms by (simp add: sequencesFirst_def)
  have 2: "sequencesFirst ?st2"
  proof (cases "map_of (callbacks ?st1) (key ?info)")
    case None
    then show ?thesis using 1 set_assign [of "key ?info" "[]" "callbacks st"]
      unfolding sequencesFirst_iff by fastforce
  next
    case (Some a)
    then show ?thesis using 1 by simp
  qed
  have 3: "sequencesFirst ?st3" using 2 by (rule getMatches_sequencesFirst)
  have old: "seqFirst ?old"
  proof (cases "map_of (callbacks ?st3) (key ?info)")
    case None
    then show ?thesis by simp
  next
    case (Some cbs)
    then show ?thesis using sequencesFirst_lookup [OF 3 Some] by simp
  qed
  have new: "seqFirst ?new"
    using old by (auto intro: seqFirst_push)
  have eq: "bindToken tb c cb act sn lvl st =
      ?st3\<lparr>callbacks := assign (key ?info) ?new (callbacks ?st3)\<rparr>"
    by (simp add: bindToken_def Let_def split_beta)
  show ?thesis
    unfolding eq sequencesFirst_iff
  proof (intro allI impI)
    fix k cbs
    assume "(k, cbs) \<in> set (callbacks (?st3\<lparr>callbacks := assign (key ?info) ?new (callbacks ?st3)\<rparr>))"
    with set_assign have "(k, cbs) = (key ?info, ?new) \<or> (k, cbs) \<in> set (callbacks ?st3)"
      by fastforce
    then show "seqFirst cbs"
    proof
      assume "(k, cbs) = (key ?info, ?new)"
      with new show ?thesis by simp
    next
      assume "(k, cbs) \<in> set (callbacks ?st3)"
      with 3 show ?thesis unfolding sequencesFirst_iff by blast
    qed
  qed
qed

lemma bindSequence_sequencesFirst:
  "sequencesFirst st \<Longrightarrow> sequencesFirst (bindSequence tb cmb keys i rf act st)"
  unfolding bindSequence_def
  by (rule fold_invariant)
     (simp_all add: bindToken_sequencesFirst Let_def, simp add: sequencesFirst_def)

lemma bindSingle_sequencesFirst:
  "sequencesFirst st \<Longrightarrow> sequencesFirst (bindSingle tb c i rf act st)"
  by (auto simp: bindSingle_def Let_def
        intro!: bindSequence_sequencesFirst bindToken_sequencesFirst)
     (simp add: sequencesFirst_def)

lemma bind_sequencesFirst:
  "sequencesFirst st \<Longrightarrow> sequencesFirst (bind tb keys i rf act st)"
  unfolding bind_def by (rule fold_invariant) (simp_all add: bindSingle_sequencesFirst)

lemma sequencesFirst_new: "sequencesFirst new_engine"
  by (simp add: sequencesFirst_def new_engine_def)

lemma handleKeyEvent_sequencesFirst:
  "sequencesFirst st \<Longrightarrow> sequencesFirst (eng (fst (handleKeyEvent tb st e)))"
  by (simp add: sequencesFirst_def handleKeyEvent_callbacks)

lemma fireEntry_fired:
  "fired (fst (fireEntry tb e cb d)) = fired d @ [cb] \<and>
   processedSequenceCallback (fst (fireEntry tb e cb d)) = processedSequenceCallback d"
  by (simp add: fireEntry_def split_beta)

lemma expectedFired_plain:
  "list_all (\<lambda>c. seq c = None) cbs \<Longrightarrow> expectedFired m p cbs = (if p then [] else cbs)"
  by (induction cbs)
     (auto simp: expectedFired_def sequenceMatches_def plainMatches_def list_all_iff
        filter_empty_conv filter_id_conv)

lemma fireLoop_fired:
  assumes "seqFirst cbs"
  shows "\<exists>rest. fired d @ expectedFired m (processedSequenceCallback d) cbs =
                  fired (fst (fireLoop tb e m cbs d)) @ rest \<and>
                (snd (fireLoop tb e m cbs d) = None \<longrightarrow> rest = [])"
  using assms
proof (induction cbs arbitrary: d)
  case Nil
  then show ?case by (simp add: expectedFired_def sequenceMatches_def plainMatches_def)
next
  case (Cons cb cbs)
  show ?case
  proof (cases "seq cb \<noteq> None")
    case True
    with Cons.prems have sf: "seqFirst cbs" by simp
    show ?thesis
    proof (cases "level cb = m")
      case False
      have "expectedFired m (processedSequenceCallback d) (cb # cbs) =
            expectedFired m (processedSequenceCallback d) cbs"
        using True False by (auto simp: expectedFired_def sequenceMatches_def plainMatches_def)
      moreover have "fireLoop tb e m (cb # cbs) d = fireLoop tb e m cbs d"
        using True False by simp
      ultimately show ?thesis using Cons.IH [OF sf, of d] by simp
    next
      case lv: True
      let ?d0 = "d\<lparr>processedSequenceCallback := True,
                    doNotReset := doNotReset d @ [the (seq cb)]\<rparr>"
      obtain d' x where f: "fireEntry tb e cb ?d0 = (d', x)" by (cases "fireEntry tb e cb ?d0")
      have fd: "fired d' = fired d @ [cb]" and pd: "processedSequenceCallback d'"
        using fireEntry_fired [of tb e cb ?d0] f by simp_all
      have ex: "expectedFired m (processedSequenceCallback d) (cb # cbs) =
                cb # sequenceMatches m cbs"
        using True lv by (simp add: expectedFired_def sequenceMatches_def)
      have ex': "expectedFired m True cbs = sequenceMatches m cbs"
        by (simp add: expectedFired_def)
      show ?thesis
      proof (cases x)
        case None
        then have "fireLoop tb e m (cb # cbs) d = fireLoop tb e m cbs d'"
          using True lv f by simp
        then show ?thesis using Cons.IH [OF sf, of d'] fd pd ex ex' by simp
      next
        case (Some a)
        then have "fireLoop tb e m (cb # cbs) d = (d', Some a)"
          using True lv f by simp
        then show ?thesis using fd ex by simp
      qed
    qed
  next
    case False
    with Cons.prems have pl: "list_all (\<lambda>c. seq c = None) cbs" by simp
    then have sf: "seqFirst cbs" by (rule seqFirst_plain)
    have pl': "list_all (\<lambda>c. seq c = None) (cb # cbs)" using pl False by simp
    show ?thesis
    proof (cases "processedSequenceCallback d")
      case True
      then have "fireLoop tb e m (cb # cbs) d = fireLoop tb e m cbs d"
        using False by simp
      then show ?thesis
        using Cons.IH [OF sf, of d] True expectedFired_plain [OF pl] expectedFired_plain [OF pl']
        by simp
    next
      case np: False
      obtain d' x where f: "fireEntry tb e cb d = (d', x)" by (cases "fireEntry tb e cb d")
      have fd: "fired d' = fired d @ [cb]" and pd: "\<not> processedSequenceCallback d'"
        using fireEntry_fired [of tb e cb d] f np by simp_all
      show ?thesis
      proof (cases x)
        case None
        then have "fireLoop tb e m (cb # cbs) d = fireLoop tb e m cbs d'"
          using False np f by simp
        then show ?thesis
          using Cons.IH [OF sf, of d'] fd pd np
            expectedFired_plain [OF pl] expectedFired_plain [OF pl']
          by simp
      next
        case (Some a)
        then have "fireLoop tb e m (cb # cbs) d = (d', Some a)"
          using False np f by simp
        then show ?thesis using fd np expectedFired_plain [OF pl'] by simp
      qed
    qed
  qed
qed

lemma maxLevel_fold_ge:
  "a \<le> fold (\<lambda>cb m. if seq cb \<noteq> None then max m (level cb) else m) cbs a"
proof (induction cbs arbitrary: a)
  case Nil
  then show ?case by simp
next
  case (Cons cb cbs)
  show ?case
    using Cons.IH [of "if seq cb \<noteq> None then max a (level cb) else a"]
    by (auto split: if_splits)
qed

lemma maxLevel_fold_upper:
  "cb \<in> set cbs \<Longrightarrow> seq cb \<noteq> None \<Longrightarrow>
   level cb \<le> fold (\<lambda>cb m. if seq cb \<noteq> None then max m (level cb) else m) cbs a"
proof (induction cbs arbitrary: a)
  case Nil
  then show ?case by simp
next
  case (Cons c cbs)
  show ?case
  proof (cases "cb = c")
    case True
    then show ?thesis
      using maxLevel_fold_ge [of "max a (level c)" cbs] Cons.prems by simp
  next
    case False
    then show ?thesis using Cons by simp
  qed
qed

lemma maxLevel_fold_attained:
  "fold (\<lambda>cb m. if seq cb \<noteq> None then max m (level cb) else m) cbs a = a \<or>
   (\<exists>cb \<in> set cbs. seq cb \<noteq> None \<and>
      level cb = fold (\<lambda>cb m. if seq cb \<noteq> None then max m (level cb) else m) cbs a)"
proof (induction cbs arbitrary: a)
  case Nil
  then show ?case by simp
next
  case (Cons c cbs)
  show ?case
    using Cons.IH [of "if seq c \<noteq> None then max a (level c) else a"]
    by (auto simp: max_def split: if_splits)
qed

lemma maxLevelOf_upper:
  "cb \<in> set cbs \<Longrightarrow> seq cb \<noteq> None \<Longrightarrow> level cb \<le> maxLevelOf cbs"
  unfolding maxLevelOf_def by (rule maxLevel_fold_upper)

lemma maxLevelOf_attained:
  assumes "cb \<in> set cbs" "seq cb \<noteq> None"
  shows "sequenceMatches (maxLevelOf cbs) cbs \<noteq> []"
proof -
  have "maxLevelOf cbs = 0 \<or> (\<exists>c \<in> set cbs. seq c \<noteq> None \<and> level c = maxLevelOf cbs)"
    using maxLevel_fold_attained [of cbs 0] by (simp add: maxLevelOf_def)
  then consider "maxLevelOf cbs = 0"
    | c where "c \<in> set cbs" "seq c \<noteq> None" "level c = maxLevelOf cbs"
    by auto
  then show ?thesis
  proof cases
    case 1
    with maxLevelOf_upper [OF assms] have "level cb = maxLevelOf cbs" by simp
    with assms show ?thesis by (auto simp: sequenceMatches_def filter_empty_conv)
  next
    case 2
    then show ?thesis by (auto simp: sequenceMatches_def filter_empty_conv)
  qed
qed

lemma handleKey_fired:
  assumes sf: "sequencesFirst st"
  shows "\<exists>rest. expectedFired (maxLevelOf (snd (getMatches st ch mods e None None 0))) False
                   (snd (getMatches st ch mods e None None 0)) =
                 fired (fst (handleKey tb st ch mods e)) @ rest \<and>
               (snd (handleKey tb st ch mods e) = None \<longrightarrow> rest = [])"
proof -
  obtain cbs where g: "getMatches st ch mods e None None 0 = (st, cbs)"
    using getMatches_handle [of st ch mods e 0]
    by (cases "getMatches st ch mods e None None 0") simp
  have s: "seqFirst cbs"
  proof (cases "map_of (callbacks st) ch")
    case None
    then show ?thesis using g by (simp add: getMatches_def)
  next
    case (Some old)
    have "\<And>cb. \<not> isDeleted None None 0 cb" by (simp add: isDeleted_def)
    then have "cbs = filter (isCandidate st (if etype e = Keyup \<and> isModifier ch then [ch]
                                else mods) e None) old"
      using Some g by (simp add: getMatches_def Let_def getMatches_loop_no_delete)
    then show ?thesis using seqFirst_filter [OF sequencesFirst_lookup [OF sf Some]] by simp
  qed
  obtain d x where f: "fireLoop tb e (maxLevelOf cbs) cbs (start_dispatch st) = (d, x)"
    by (cases "fireLoop tb e (maxLevelOf cbs) cbs (start_dispatch st)")
  from fireLoop_fired [OF s, of "start_dispatch st" "maxLevelOf cbs" tb e] f
  obtain rest where r: "expectedFired (maxLevelOf cbs) False cbs = fired d @ rest"
    and n: "x = None \<longrightarrow> rest = []"
    by (auto simp: start_dispatch_def)
  have "fired (fst (handleKey tb st ch mods e)) = fired d \<and> snd (handleKey tb st ch mods e) = x"
    by (simp add: handleKey_def g f Let_def split: option.splits)
  with r n g show ?thesis by auto
qed

lemma expectedFired_seq:
  "cb \<in> set (expectedFired m p cbs) \<Longrightarrow> seq cb \<noteq> None \<Longrightarrow> level cb = m"
  by (auto simp: expectedFired_def sequenceMatches_def plainMatches_def split: if_splits)

lemma expectedFired_plain_member:
  "cb \<in> set (expectedFired m p cbs) \<Longrightarrow> seq cb = None \<Longrightarrow> sequenceMatches m cbs = []"
  by (auto simp: expectedFired_def sequenceMatches_def plainMatches_def split: if_splits)

text \<open>
  The matching rule, for an engine built with \<open>bind\<close>: what \<open>handleKey\<close> hands to
  \<open>_fireCallback\<close> is an initial part of the sequence matches at the largest level
  followed, when there is no sequence match, by the plain matches; it is all of it when
  no exception is raised.
\<close>

lemma handleKey_fired_prefix:
  assumes sf: "sequencesFirst st"
  shows "prefix (fired (fst (handleKey tb st ch mods e)))
           (expectedFired (maxLevelOf (snd (getMatches st ch mods e None None 0))) False
              (snd (getMatches st ch mods e None None 0))) \<and>
         (snd (handleKey tb st ch mods e) = None \<longrightarrow>
          fired (fst (handleKey tb st ch mods e)) =
            expectedFired (maxLevelOf (snd (getMatches st ch mods e None None 0))) False
              (snd (getMatches st ch mods e None None 0)))"
proof -
  define cbs where "cbs = snd (getMatches st ch mods e None None 0)"
  define f where "f = fired (fst (handleKey tb st ch mods e))"
  define x where "x = snd (handleKey tb st ch mods e)"
  define E where "E = expectedFired (maxLevelOf cbs) False cbs"
  have "\<exists>rest. E = f @ rest \<and> (x = None \<longrightarrow> rest = [])"
    unfolding E_def f_def x_def cbs_def by (rule handleKey_fired [OF sf])
  then obtain rest where r: "E = f @ rest" and n: "x = None \<longrightarrow> rest = []"
    by (elim exE conjE)
  have "prefix f E" using r by (simp add: prefix_def)
  moreover have "x = None \<longrightarrow> f = E" using r n by simp
  ultimately show ?thesis unfolding E_def f_def x_def cbs_def by (rule conjI)
qed

text \<open>
  So a sequence match that is fired has the largest level among the sequence matches,
  and a plain match is fired only when no sequence binding matches.
\<close>

lemma handleKey_tie_break:
  assumes sf: "sequencesFirst st"
    and cb: "cb \<in> set (fired (fst (handleKey tb st ch mods e)))"
    and c: "c \<in> set (snd (getMatches st ch mods e None None 0))"
  shows "seq cb \<noteq> None \<Longrightarrow> seq c \<noteq> None \<Longrightarrow> level c \<le> level cb"
    and "seq cb = None \<Longrightarrow> seq c = None"
proof -
  define cbs where "cbs = snd (getMatches st ch mods e None None 0)"
  define f where "f = fired (fst (handleKey tb st ch mods e))"
  have "prefix f (expectedFired (maxLevelOf cbs) False cbs)"
    unfolding f_def cbs_def using handleKey_fired_prefix [OF sf] by (rule conjunct1)
  then have "set f \<subseteq> set (expectedFired (maxLevelOf cbs) False cbs)"
    by (rule set_mono_prefix)
  moreover have "cb \<in> set f" using cb by (simp add: f_def)
  ultimately have m: "cb \<in> set (expectedFired (maxLevelOf cbs) False cbs)" by (rule subsetD)
  have c': "c \<in> set cbs" using c by (simp add: cbs_def)
  {
    assume a: "seq cb \<noteq> None" "seq c \<noteq> None"
    have "level cb = maxLevelOf cbs" by (rule expectedFired_seq [OF m a(1)])
    moreover have "level c \<le> maxLevelOf cbs" by (rule maxLevelOf_upper [OF c' a(2)])
    ultimately show "level c \<le> level cb" by simp
  }
  {
    assume a: "seq cb = None"
    have e: "sequenceMatches (maxLevelOf cbs) cbs = []"
      by (rule expectedFired_plain_member [OF m a])
    show "seq c = None"
    proof (rule ccontr)
      assume "seq c \<noteq> None"
      from maxLevelOf_attained [OF c' this] e show False by simp
    qed
  }
qed

text \<open>
  \<open>trigger\<close> and \<open>unbind\<close> keep both invariants of the registry as well.
\<close>

lemma trigger_callbacks: "callbacks (fst (trigger keys act st)) = callbacks st"
  by (auto simp: trigger_def increaseSequence_def split: option.splits callback.splits)

lemma trigger_wellFormed: "wellFormed st \<Longrightarrow> wellFormed (fst (trigger keys act st))"
  by (simp add: wellFormed_def trigger_callbacks)

lemma trigger_sequencesFirst:
  "sequencesFirst st \<Longrightarrow> sequencesFirst (fst (trigger keys act st))"
  by (simp add: sequencesFirst_def trigger_callbacks)

lemma unbind_wellFormed: "wellFormed st \<Longrightarrow> wellFormed (unbind tb keys i act st)"
  by (simp add: unbind_def bind_wellFormed)

lemma unbind_sequencesFirst:
  "sequencesFirst st \<Longrightarrow> sequencesFirst (unbind tb keys i act st)"
  by (simp add: unbind_def bind_sequencesFirst)

section \<open>Where the engine departs from its description\<close>

lemma fireCallback_resetTimer: "resetTimer (fst (fireCallback tb st cb e)) = resetTimer st"
  by (cases cb)
     (auto simp: increaseSequence_def callbackAndReset_def fireUser_def split_beta
        split: prod.splits option.splits)

lemma fireEntry_resetTimer: "resetTimer (eng (fst (fireEntry tb e cb d))) = resetTimer (eng d)"
  by (simp add: fireEntry_def split_beta fireCallback_resetTimer)

lemma fireLoop_resetTimer:
  "resetTimer (eng (fst (fireLoop tb e m cbs d))) = resetTimer (eng d)"
proof (induction cbs arbitrary: d)
  case Nil
  then show ?case by simp
next
  case (Cons cb cbs)
  show ?case
  proof (cases rule: fireLoop_Cons_cases [of tb e m cb cbs d])
    case skip
    then show ?thesis by (simp add: Cons.IH)
  next
    case (stop d0 d' ex)
    then show ?thesis using fireEntry_resetTimer [of tb e cb d0] by simp
  next
    case (go d0 d')
    then show ?thesis using fireEntry_resetTimer [of tb e cb d0] Cons.IH [of d'] by simp
  qed
qed

text \<open>No dispatch starts the inactivity timer, whatever the engine and the event.\<close>

lemma handleKeyEvent_resetTimer:
  "resetTimer (eng (fst (handleKeyEvent tb st e))) = resetTimer st"
proof -
  have h: "resetTimer (eng (fst (handleKey tb st ch mods e))) = resetTimer st" for ch mods
  proof -
    have g: "getMatches st ch mods e None None 0 = (st, snd (getMatches st ch mods e None None 0))"
      using getMatches_handle [of st ch mods e 0] by (simp add: prod_eq_iff)
    let ?cbs = "snd (getMatches st ch mods e None None 0)"
    obtain d x where f: "fireLoop tb e (maxLevelOf ?cbs) ?cbs (start_dispatch st) = (d, x)"
      by (cases "fireLoop tb e (maxLevelOf ?cbs) ?cbs (start_dispatch st)")
    have "resetTimer (eng d) = resetTimer st"
      using fireLoop_resetTimer [of tb e "maxLevelOf ?cbs" ?cbs "start_dispatch st"] f
      by (simp add: start_dispatch_def)
    then show ?thesis
      unfolding handleKey_def
      by (subst g) (simp add: f Let_def resetSequences_def split: option.splits)
  qed
  show ?thesis
    by (simp add: handleKeyEvent_def Let_def start_dispatch_def h)
qed

text \<open>
  The closure of \<open>_increaseSequence\<close>, when it is not suppressed, raises after it has
  set the expected action and the level.
\<close>

lemma fireCallback_increaseSequence:
  "\<not> stopCallback st (target e) \<Longrightarrow>
   fireCallback tb st (IncreaseSequence a cmb) e =
     (fst (increaseSequence a cmb st), [], Some TypeError)"
  by (simp add: increaseSequence_def)

text \<open>\<open>reset\<close> empties the registry and leaves every other field as it is.\<close>

lemma reset_fields:
  "callbacks (reset st) = [] \<and> directMap (reset st) = [] \<and>
   sequenceLevels (reset st) = sequenceLevels st \<and>
   nextExpectedAction (reset st) = nextExpectedAction st \<and>
   ignoreNextKeyup (reset st) = ignoreNextKeyup st \<and>
   ignoreNextKeypress (reset st) = ignoreNextKeypress st"
  by (simp add: reset_def)

text \<open>After \<open>reset\<close> a \<open>trigger\<close> calls nothing.\<close>

lemma trigger_after_reset: "trigger keys act (reset st) = (reset st, [], None)"
  by (simp add: trigger_def reset_def)

text \<open>With an empty registry a dispatch hands nothing to \<open>_fireCallback\<close>.\<close>

lemma handleKeyEvent_empty_registry:
  "callbacks st = [] \<Longrightarrow>
   fired (fst (handleKeyEvent tb st e)) = [] \<and> ran (fst (handleKeyEvent tb st e)) = [] \<and>
   snd (handleKeyEvent tb st e) = None"
  by (simp add: handleKeyEvent_def handleKey_def getMatches_def maxLevelOf_def
      start_dispatch_def Let_def)

text \<open>
  C1 fails on the code at this input. \<open>option+a\<close> is bound to a function that returns
  \<open>false\<close> and \<open>alt+a\<close> to a second function; a key-down of \<open>a\<close> with alt held matches
  both plain bindings and no sequence binding. The first function runs, the access to
  \<open>#preventDefault\<close> raises, and the second matching plain binding is never fired.
\<close>

theorem handleKey_plain_binding_not_fired:
  "(let tb = initial_tables False;
        st = bind tb [''alt+a''] 2 False None (bind tb [''option+a''] 1 True None new_engine);
        e = (keyEvent Keydown 65)\<lparr>altKey := True\<rparr>;
        (d, x) = handleKeyEvent tb st e
    in map callback (snd (getMatches st ''a'' (eventModifiers e) e None None 0)) =
         [User 1 True, User 2 False] \<and>
       map callback (fired d) = [User 1 True] \<and> ran d = [1] \<and> x = Some TypeError)"
  by code_simp

text \<open>
  C2 fails on the code at this input. The sequence \<open>g i\<close> is bound and a key-press of
  \<open>g\<close> (code 103) is dispatched. The closure for level 0 sets the expected action and
  raises the level to 1, then raises \<open>TypeError\<close>: no timer is pending afterwards.
\<close>

theorem increaseSequence_starts_no_timer:
  "(let tb = initial_tables False;
        st = bind tb [''g i''] 1 False None new_engine;
        (d, x) = handleKeyEvent tb st (keyEvent Keypress 103)
    in x = Some TypeError \<and> resetTimer (eng d) = None \<and>
       sequenceLevels (eng d) = [(''g i'', 1)] \<and>
       nextExpectedAction (eng d) = Some Keypress)"
  by code_simp

text \<open>
  C3 fails on the code at this input: after the dispatch above, \<open>reset\<close> empties the
  registry, but the level of \<open>g i\<close> is still 1 and a key-press is still expected.
\<close>

theorem reset_keeps_sequence_progress:
  "(let tb = initial_tables False;
        st = bind tb [''g i''] 1 False None new_engine;
        st' = reset (eng (fst (handleKeyEvent tb st (keyEvent Keypress 103))))
    in callbacks st' = [] \<and> directMap st' = [] \<and>
       sequenceLevels st' = [(''g i'', 1)] \<and> nextExpectedAction st' = Some Keypress)"
  by code_simp

text \<open>
  C4 fails on the code at this input: \<open>g\<close> is bound to function 1, the sequence
  \<open>g i\<close> is bound, and \<open>g\<close> is bound again to function 2. The second \<open>bind\<close> of \<open>g\<close>
  deletes the level-0 entry of the sequence, steps over the old entry of \<open>g\<close>, and
  appends the new one: the registry holds two plain entries for \<open>g\<close> with the action
  \<open>keypress\<close>, and a key-press of \<open>g\<close> runs both functions.
\<close>

theorem rebind_leaves_old_binding:
  "(let tb = initial_tables False;
        st = bind tb [''g''] 2 False None
               (bind tb [''g i''] 3 False None (bind tb [''g''] 1 False None new_engine))
    in map_of (callbacks st) ''g'' =
         Some [\<lparr>callback = User 1 False, modifiers = [], action = Keypress, seq = None,
                 level = 0, combo = ''g''\<rparr>,
               \<lparr>callback = User 2 False, modifiers = [], action = Keypress, seq = None,
                 level = 0, combo = ''g''\<rparr>] \<and>
       ran (fst (handleKeyEvent tb st (keyEvent Keypress 103))) = [1, 2] \<and>
       trigger ''g'' None st = (st, [2], None))"
  by code_simp

end
